theory Spec2Isabelle
  imports Complex_Main
begin

section \<open>Bandwidth slot management (coordinator.ts, inner layer of phase 2)\<close>

text \<open>
  The module keeps two pieces of mutable state: \<^verbatim>\<open>activeUploads\<close>, a
  \<^verbatim>\<open>Map<FileId, number>\<close> from file id to file size, and \<^verbatim>\<open>queue\<close>, an array of
  \<^verbatim>\<open>QueueItem\<close>. Every function below takes that state and returns the new one.
  coordinator.ts holds two versions of the module. The functions of this section are the
  same text in both; the older version has two more pieces of state
  (\<^verbatim>\<open>activeInitiates\<close>, \<^verbatim>\<open>initiateQueue\<close>) that these functions do not touch, so
  they are written over any extension of the record.

  A JavaScript \<^verbatim>\<open>Map\<close> iterates in insertion order, \<^verbatim>\<open>set\<close> on a key that is present
  replaces the value in place, \<^verbatim>\<open>delete\<close> removes the key and \<^verbatim>\<open>size\<close> counts the
  entries: the map is an association list with these operations. File sizes are
  integers (bytes). The \<^verbatim>\<open>resolve\<close> callback of a queue item resumes the caller that
  is suspended in \<^verbatim>\<open>acquireUploadSlot\<close>; the model returns the items whose
  \<^verbatim>\<open>resolve\<close> was called, in call order.
\<close>

type_synonym FileId = string

type_synonym uploads = "(FileId \<times> int) list"

definition SMALL_FILE_THRESHOLD :: int where
  "SMALL_FILE_THRESHOLD = 65 * 1024 * 1024"

definition MAX_CONCURRENT_SMALL :: nat where
  "MAX_CONCURRENT_SMALL = 5"

definition MAX_CONCURRENT_LARGE :: nat where
  "MAX_CONCURRENT_LARGE = 3"

record QueueItem =
  fileId :: FileId
  fileSize :: int

record coordinator =
  activeUploads :: uploads
  queue :: "QueueItem list"

text \<open>\<^verbatim>\<open>Map.prototype.set\<close>, \<^verbatim>\<open>Map.prototype.delete\<close> and \<^verbatim>\<open>Map.prototype.size\<close>;
  \<open>Map_has\<close> says whether a key is in the map.\<close>

fun Map_set :: "FileId \<Rightarrow> int \<Rightarrow> uploads \<Rightarrow> uploads" where
  "Map_set k v [] = [(k, v)]"
| "Map_set k v ((k', v') # m) =
     (if k' = k then (k, v) # m else (k', v') # Map_set k v m)"

fun Map_delete :: "FileId \<Rightarrow> uploads \<Rightarrow> uploads" where
  "Map_delete k [] = []"
| "Map_delete k ((k', v') # m) =
     (if k' = k then Map_delete k m else (k', v') # Map_delete k m)"

definition Map_size :: "uploads \<Rightarrow> nat" where
  "Map_size m = length m"

definition Map_has :: "FileId \<Rightarrow> uploads \<Rightarrow> bool" where
  "Map_has k m = (k \<in> fst ` set m)"

text \<open>
  \<^verbatim>\<open>
  const getMaxConcurrentSlots = () => {
    for (const fileSize of activeUploads.values()) {
      if (fileSize > SMALL_FILE_THRESHOLD) {
        return MAX_CONCURRENT_LARGE;
      }
    }
    return MAX_CONCURRENT_SMALL;
  };
  \<close>
\<close>

fun slotsFor :: "uploads \<Rightarrow> nat" where
  "slotsFor [] = MAX_CONCURRENT_SMALL"
| "slotsFor ((k, fsize) # m) =
     (if fsize > SMALL_FILE_THRESHOLD then MAX_CONCURRENT_LARGE else slotsFor m)"

definition getMaxConcurrentSlots :: "'a coordinator_scheme \<Rightarrow> nat" where
  "getMaxConcurrentSlots s = slotsFor (activeUploads s)"

text \<open>
  \<^verbatim>\<open>
  const processQueue = () => {
    if (queue.length === 0) return;
    const maxSlots = getMaxConcurrentSlots();
    while (queue.length > 0 && activeUploads.size < maxSlots) {
      const next = queue.shift()!;
      activeUploads.set(next.fileId, next.fileSize);
      next.resolve();
    }
  };
  \<close>
  \<open>maxSlots\<close> is read once, before the loop; the loop is \<open>processQueue_loop\<close>, which
  returns the new state and the items resolved.
\<close>

fun processQueue_loop ::
  "nat \<Rightarrow> uploads \<Rightarrow> QueueItem list \<Rightarrow> uploads \<times> QueueItem list \<times> QueueItem list" where
  "processQueue_loop maxSlots active [] = (active, [], [])"
| "processQueue_loop maxSlots active (next # q) =
     (if Map_size active < maxSlots
      then (case processQueue_loop maxSlots (Map_set (fileId next) (fileSize next) active) q of
              (active', q', resolved) \<Rightarrow> (active', q', next # resolved))
      else (active, next # q, []))"

definition processQueue :: "'a coordinator_scheme \<Rightarrow> 'a coordinator_scheme \<times> QueueItem list" where
  "processQueue s =
     (if queue s = [] then (s, [])
      else (let maxSlots = getMaxConcurrentSlots s in
            case processQueue_loop maxSlots (activeUploads s) (queue s) of
              (active', q', resolved) \<Rightarrow>
                (s\<lparr>activeUploads := active', queue := q'\<rparr>, resolved)))"

text \<open>
  \<^verbatim>\<open>
  export const acquireUploadSlot = async (fileId, fileSize) => {
    const maxSlots = getMaxConcurrentSlots();
    if (activeUploads.size < maxSlots) {
      activeUploads.set(fileId, fileSize);
      return Promise.resolve();
    }
    return new Promise<void>((resolve) => {
      queue.push({ fileId, fileSize, resolve });
    });
  };
  \<close>
  The boolean says whether the returned promise is already resolved (\<open>True\<close>: admitted
  at once) or pending in the queue (\<open>False\<close>).
\<close>

definition acquireUploadSlot ::
  "FileId \<Rightarrow> int \<Rightarrow> 'a coordinator_scheme \<Rightarrow> 'a coordinator_scheme \<times> bool" where
  "acquireUploadSlot fid fsize s =
     (let maxSlots = getMaxConcurrentSlots s in
      if Map_size (activeUploads s) < maxSlots
      then (s\<lparr>activeUploads := Map_set fid fsize (activeUploads s)\<rparr>, True)
      else (s\<lparr>queue := queue s @ [\<lparr>fileId = fid, fileSize = fsize\<rparr>]\<rparr>, False))"

text \<open>
  \<^verbatim>\<open>
  export const releaseUploadSlot = (fileId) => {
    activeUploads.delete(fileId);
    processQueue();
  };
  \<close>
\<close>

definition releaseUploadSlot ::
  "FileId \<Rightarrow> 'a coordinator_scheme \<Rightarrow> 'a coordinator_scheme \<times> QueueItem list" where
  "releaseUploadSlot fid s =
     processQueue (s\<lparr>activeUploads := Map_delete fid (activeUploads s)\<rparr>)"

text \<open>
  \<^verbatim>\<open>
  export const resetCoordinator = () => {
    activeUploads.clear();
    queue.length = 0;
  };
  \<close>
  \<open>fresh\<close> is the state of the module when it is loaded.
\<close>

definition resetCoordinator :: "'a coordinator_scheme \<Rightarrow> 'a coordinator_scheme" where
  "resetCoordinator s = s\<lparr>activeUploads := [], queue := []\<rparr>"

definition fresh :: coordinator where
  "fresh = \<lparr>activeUploads = [], queue = []\<rparr>"

text \<open>
  The older version of the module: \<^verbatim>\<open>activeInitiates\<close> is a \<^verbatim>\<open>Set<FileId>\<close> and
  \<^verbatim>\<open>initiateQueue\<close> an array whose items carry a file id.
  \<^verbatim>\<open>
  export const resetCoordinator = (): void => {
    activeInitiates.clear();
    initiateQueue.length = 0;
    activeUploads.clear();
    queue.length = 0;
  };
  \<close>
\<close>

record legacy_coordinator = coordinator +
  activeInitiates :: "FileId list"
  initiateQueue :: "FileId list"

definition resetCoordinator_legacy :: "legacy_coordinator \<Rightarrow> legacy_coordinator" where
  "resetCoordinator_legacy s =
     s\<lparr>activeInitiates := [], initiateQueue := [], activeUploads := [], queue := []\<rparr>"

definition fresh_legacy :: legacy_coordinator where
  "fresh_legacy =
     \<lparr>activeUploads = [], queue = [], activeInitiates = [], initiateQueue = []\<rparr>"

text \<open>
  The callers of the module, one call at a time (JavaScript runs each of these functions
  to its end before another starts): \<open>step\<close> gives the state after a call and
  \<open>events\<close> what the call did to the waiting callers. \<open>Resolved\<close> is a call of an
  item's \<^verbatim>\<open>resolve\<close>, \<open>Pushed\<close> a \<^verbatim>\<open>queue.push\<close>, \<open>Cleared\<close> an item that
  \<^verbatim>\<open>queue.length = 0\<close> threw away (its caller is never resumed).
\<close>

datatype request = Acquire FileId int | Release FileId | Reset

datatype event = Pushed QueueItem | Resolved QueueItem | Cleared QueueItem

fun step :: "request \<Rightarrow> 'a coordinator_scheme \<Rightarrow> 'a coordinator_scheme" where
  "step (Acquire fid fsize) s = fst (acquireUploadSlot fid fsize s)"
| "step (Release fid) s = fst (releaseUploadSlot fid s)"
| "step Reset s = resetCoordinator s"

fun events :: "request \<Rightarrow> 'a coordinator_scheme \<Rightarrow> event list" where
  "events (Acquire fid fsize) s =
     (if snd (acquireUploadSlot fid fsize s) then []
      else [Pushed \<lparr>fileId = fid, fileSize = fsize\<rparr>])"
| "events (Release fid) s = map Resolved (snd (releaseUploadSlot fid s))"
| "events Reset s = map Cleared (queue s)"

fun run :: "request list \<Rightarrow> 'a coordinator_scheme \<Rightarrow> 'a coordinator_scheme" where
  "run [] s = s"
| "run (r # rs) s = run rs (step r s)"

fun trace :: "request list \<Rightarrow> 'a coordinator_scheme \<Rightarrow> event list" where
  "trace [] s = []"
| "trace (r # rs) s = events r s @ trace rs (step r s)"

fun pushed :: "event list \<Rightarrow> QueueItem list" where
  "pushed [] = []"
| "pushed (Pushed x # es) = x # pushed es"
| "pushed (e # es) = pushed es"

fun left_queue :: "event list \<Rightarrow> QueueItem list" where
  "left_queue [] = []"
| "left_queue (Pushed x # es) = left_queue es"
| "left_queue (Resolved x # es) = x # left_queue es"
| "left_queue (Cleared x # es) = x # left_queue es"

fun resolved :: "event list \<Rightarrow> QueueItem list" where
  "resolved [] = []"
| "resolved (Resolved x # es) = x # resolved es"
| "resolved (e # es) = resolved es"

text \<open>
  \<^verbatim>\<open>
  const processFileUpload = async (fileId, fileSize, uploadFn) => {
    try {
      await acquireUploadSlot(fileId, fileSize);
      const result = await uploadFn(fileId);
      return result;
    } finally {
      releaseUploadSlot(fileId);
    }
  };
  \<close>
  The wrapper is suspended at its two \<^verbatim>\<open>await\<close>s. \<open>processFileUpload_start\<close> is the
  call up to the first one; \<open>processFileUpload_resolved\<close> is the resumption when the
  slot's promise is resolved (the call of \<^verbatim>\<open>uploadFn\<close>); \<open>processFileUpload_settle\<close>
  is the resumption when the promise of \<^verbatim>\<open>uploadFn\<close> settles: it is fulfilled with
  a value or rejected with a reason, the \<^verbatim>\<open>finally\<close> block runs in both cases, and
  the wrapper's own promise settles the same way.
\<close>

datatype ('a, 'e) settled = Fulfilled 'a | Rejected 'e

datatype ('a, 'e) upload_task = AwaitingSlot | Uploading | Done "('a, 'e) settled"

definition processFileUpload_start ::
  "FileId \<Rightarrow> int \<Rightarrow> 'c coordinator_scheme \<Rightarrow> 'c coordinator_scheme \<times> ('a, 'e) upload_task" where
  "processFileUpload_start fid fsize s =
     (case acquireUploadSlot fid fsize s of
        (s', admitted) \<Rightarrow> (s', if admitted then Uploading else AwaitingSlot))"

definition processFileUpload_resolved :: "('a, 'e) upload_task \<Rightarrow> ('a, 'e) upload_task" where
  "processFileUpload_resolved t = (case t of AwaitingSlot \<Rightarrow> Uploading | _ \<Rightarrow> t)"

definition processFileUpload_settle ::
  "FileId \<Rightarrow> ('a, 'e) settled \<Rightarrow> 'c coordinator_scheme \<Rightarrow>
     'c coordinator_scheme \<times> QueueItem list \<times> ('a, 'e) upload_task" where
  "processFileUpload_settle fid outcome s =
     (case outcome of
        Fulfilled result \<Rightarrow>
          (case releaseUploadSlot fid s of (s', rs) \<Rightarrow> (s', rs, Done (Fulfilled result)))
      | Rejected reason \<Rightarrow>
          (case releaseUploadSlot fid s of (s', rs) \<Rightarrow> (s', rs, Done (Rejected reason))))"

section \<open>Generator concurrency utility (coordinator.ts, processConcurrently)\<close>

text \<open>
  \<^verbatim>\<open>
  export const processConcurrently = async <T>(
    generator: Generator<Promise<T>, void, unknown>,
    concurrency: number,
  ): Promise<PromiseSettledResult<T>[]> => {
    const results: PromiseSettledResult<T>[] = [];
    const executing = new Set<Promise<void>>();
    for (const promise of generator) {
      const index = results.length;
      results.push({ status: 'fulfilled', value: undefined as any }); // Placeholder
      const worker = promise
        .then((value: T) => { results[index] = { status: 'fulfilled', value }; })
        .catch((reason: unknown) => { results[index] = { status: 'rejected', reason }; })
        .finally(() => { executing.delete(worker); });
      executing.add(worker);
      if (executing.size >= concurrency) {
        await Promise.race(executing);
      }
    }
    await Promise.all(executing);
    return results;
  };
  \<close>
  A promise is named by the way it settles, \<open>Fulfilled value\<close> or \<open>Rejected reason\<close>;
  when it settles is up to the event loop. The generator is the list of what advancing
  it will give, one element per item not yet reached: a promise is created (its
  operation started) when the loop takes it from the head. An entry of \<^verbatim>\<open>results\<close>
  is a settled result whose value may be \<^verbatim>\<open>undefined\<close> (\<open>None\<close>), as in the
  placeholder. \<^verbatim>\<open>executing\<close> holds the workers in
  flight, each with its index and the promise it waits for.

  The function runs without interruption between two \<^verbatim>\<open>await\<close>s, and callbacks of
  promises run only while it is suspended. \<open>driver_phase\<close> says where the function is:
  in the loop, suspended at the race (\<open>AwaitRace\<close>) or at \<^verbatim>\<open>Promise.all\<close>
  (\<open>AwaitAll\<close>), about to be resumed because the awaited promise has settled
  (\<open>RaceSettled\<close> with the settlement of the race, \<open>AllRejected\<close>), returned, or ended
  by an exception (\<open>Threw\<close>): the one an \<^verbatim>\<open>await\<close> of a rejected promise throws, or the
  one the generator throws when the loop advances it.

  Advancing the generator yields a promise or throws (\<open>advanced\<close>): the body of a
  generator function runs when the loop asks for the next value, so an operation that
  fails synchronously instead of returning a rejected promise throws there. The loop has
  no \<^verbatim>\<open>try\<close>, so the exception ends \<^verbatim>\<open>processConcurrently\<close>: its promise is rejected
  and nothing more is taken from the generator.

  The limit \<^verbatim>\<open>concurrency\<close> is a JavaScript number (\<open>js_number\<close>): a finite value, an
  infinity or \<^verbatim>\<open>NaN\<close> (which \<^verbatim>\<open>undefined\<close> becomes in a comparison). \<open>size_ge\<close> is
  \<^verbatim>\<open>executing.size >= concurrency\<close>; a comparison with \<^verbatim>\<open>NaN\<close> is false.
\<close>

datatype js_number = Finite real | PosInfinity | NegInfinity | NaN

fun size_ge :: "nat \<Rightarrow> js_number \<Rightarrow> bool" where
  "size_ge n (Finite c) = (c \<le> real n)"
| "size_ge n PosInfinity = False"
| "size_ge n NegInfinity = True"
| "size_ge n NaN = False"

datatype ('a, 'e) advanced = Yields "('a, 'e) settled" | Throws 'e

datatype 'e driver_phase =
    Running
  | AwaitRace
  | RaceSettled "(unit, 'e) settled"
  | AwaitAll
  | AllRejected 'e
  | Returned
  | Threw 'e

record ('a, 'e) driver =
  generator :: "('a, 'e) advanced list"
  results :: "('a option, 'e) settled list"
  executing :: "(nat \<times> ('a, 'e) settled) list"
  phase :: "'e driver_phase"

definition processConcurrently_start :: "('a, 'e) advanced list \<Rightarrow> ('a, 'e) driver" where
  "processConcurrently_start gen =
     \<lparr>generator = gen, results = [], executing = [], phase = Running\<rparr>"

text \<open>
  The worker of a promise is \<^verbatim>\<open>promise.then(..).catch(..).finally(..)\<close>. \<open>then_settles\<close>
  is the promise that \<^verbatim>\<open>then\<close> returns: when the promise is fulfilled the callback
  writes the result and the new promise is fulfilled with what the callback returns
  (\<^verbatim>\<open>undefined\<close>); when it is rejected the callback does not run and the new promise
  is rejected with the same reason. \<open>catch_settles\<close> is the promise that \<^verbatim>\<open>catch\<close>
  returns: its callback runs on a rejection only, and then the new promise is fulfilled.
  \<^verbatim>\<open>finally\<close> runs its callback and passes the settlement on. The index is below
  \<^verbatim>\<open>results.length\<close> whenever a worker writes (\<open>worker_index_in_range\<close> below), so the
  assignment never extends the array.
\<close>

fun then_settles ::
  "nat \<Rightarrow> ('a, 'e) settled \<Rightarrow> ('a option, 'e) settled list
     \<Rightarrow> ('a option, 'e) settled list \<times> (unit, 'e) settled" where
  "then_settles index (Fulfilled v) rs = (rs[index := Fulfilled (Some v)], Fulfilled ())"
| "then_settles index (Rejected reason) rs = (rs, Rejected reason)"

fun catch_settles ::
  "nat \<Rightarrow> (unit, 'e) settled \<Rightarrow> ('a option, 'e) settled list
     \<Rightarrow> ('a option, 'e) settled list \<times> (unit, 'e) settled" where
  "catch_settles index (Fulfilled u) rs = (rs, Fulfilled u)"
| "catch_settles index (Rejected reason) rs = (rs[index := Rejected reason], Fulfilled ())"

definition worker_settles ::
  "nat \<Rightarrow> ('a, 'e) settled \<Rightarrow> ('a option, 'e) settled list
     \<Rightarrow> ('a option, 'e) settled list \<times> (unit, 'e) settled" where
  "worker_settles index promise rs =
     (case then_settles index promise rs of (rs', p') \<Rightarrow> catch_settles index p' rs')"

text \<open>\<^verbatim>\<open>executing.delete(worker)\<close>, the worker named by its index.\<close>

fun Set_delete :: "nat \<Rightarrow> (nat \<times> 'p) list \<Rightarrow> (nat \<times> 'p) list" where
  "Set_delete i [] = []"
| "Set_delete i ((j, p) # ws) = (if j = i then Set_delete i ws else (j, p) # Set_delete i ws)"

text \<open>
  One iteration of the \<^verbatim>\<open>for\<close> loop for the promise the generator yields, up to the
  test of \<^verbatim>\<open>executing.size >= concurrency\<close>.
\<close>

definition loop_body ::
  "js_number \<Rightarrow> ('a, 'e) settled \<Rightarrow> ('a, 'e) driver \<Rightarrow> ('a, 'e) driver" where
  "loop_body concurrency promise d =
     (let index = length (results d);
          results' = results d @ [Fulfilled None];
          executing' = executing d @ [(index, promise)]
      in d\<lparr>generator := tl (generator d), results := results', executing := executing',
            phase := (if size_ge (length executing') concurrency then AwaitRace else Running)\<rparr>)"

text \<open>
  The promise with index \<open>i\<close> settles and the callbacks of its worker run. A race that is
  still pending settles the way this worker does; \<^verbatim>\<open>Promise.all\<close> is rejected by the
  first rejected worker. The callbacks of one worker run in consecutive turns of the
  microtask queue; the callbacks of different workers write different indices of
  \<^verbatim>\<open>results\<close> and delete different workers, so their interleaving does not matter and
  the model runs the callbacks of a worker in one step. A promise that has settled stays
  in \<^verbatim>\<open>executing\<close> until its worker's last callback has run, so the promises not yet
  settled are never more than the workers in \<^verbatim>\<open>executing\<close>.
\<close>

definition settle :: "nat \<Rightarrow> ('a, 'e) driver \<Rightarrow> ('a, 'e) driver" where
  "settle i d =
     (case map_of (executing d) i of
        None \<Rightarrow> d
      | Some promise \<Rightarrow>
          (case worker_settles i promise (results d) of
             (results', w) \<Rightarrow>
               d\<lparr>results := results', executing := Set_delete i (executing d),
                  phase := (case phase d of
                              AwaitRace \<Rightarrow> RaceSettled w
                            | AwaitAll \<Rightarrow> (case w of Fulfilled u \<Rightarrow> AwaitAll
                                                    | Rejected reason \<Rightarrow> AllRejected reason)
                            | p \<Rightarrow> p)\<rparr>))"

text \<open>
  The events of a run: \<open>Advance\<close> lets the function run to its next stop (one loop
  iteration, the resumption after an \<^verbatim>\<open>await\<close>, or the return); \<open>Settle i\<close> is the
  settlement of the promise with index \<open>i\<close>, which can happen only while the function is
  suspended. An event that cannot happen in a state leaves it unchanged. \<open>drive\<close> runs
  a schedule, \<open>started\<close> lists the indices of the promises the schedule has taken from
  the generator. When the generator throws, the function ends with that exception; the
  workers in flight still settle afterwards.
\<close>

datatype driver_event = Advance | Settle nat

fun driver_step ::
  "js_number \<Rightarrow> driver_event \<Rightarrow> ('a, 'e) driver \<Rightarrow> ('a, 'e) driver" where
  "driver_step concurrency Advance d =
     (case phase d of
        Running \<Rightarrow>
          (case generator d of
             [] \<Rightarrow> d\<lparr>phase := AwaitAll\<rparr>
           | Yields promise # rest \<Rightarrow> loop_body concurrency promise d
           | Throws reason # rest \<Rightarrow> d\<lparr>phase := Threw reason\<rparr>)
      | RaceSettled (Fulfilled u) \<Rightarrow> d\<lparr>phase := Running\<rparr>
      | RaceSettled (Rejected reason) \<Rightarrow> d\<lparr>phase := Threw reason\<rparr>
      | AwaitAll \<Rightarrow> (if executing d = [] then d\<lparr>phase := Returned\<rparr> else d)
      | AllRejected reason \<Rightarrow> d\<lparr>phase := Threw reason\<rparr>
      | _ \<Rightarrow> d)"
| "driver_step concurrency (Settle i) d =
     (if phase d = Running then d else settle i d)"

fun drive ::
  "js_number \<Rightarrow> driver_event list \<Rightarrow> ('a, 'e) driver \<Rightarrow> ('a, 'e) driver" where
  "drive concurrency [] d = d"
| "drive concurrency (e # es) d = drive concurrency es (driver_step concurrency e d)"

fun yields_next :: "('a, 'e) advanced list \<Rightarrow> bool" where
  "yields_next (Yields promise # rest) = True"
| "yields_next g = False"

fun started :: "js_number \<Rightarrow> driver_event list \<Rightarrow> ('a, 'e) driver \<Rightarrow> nat list" where
  "started concurrency [] d = []"
| "started concurrency (e # es) d =
     (if e = Advance \<and> phase d = Running \<and> yields_next (generator d)
      then [length (results d)] else [])
     @ started concurrency es (driver_step concurrency e d)"

text \<open>The entry of \<^verbatim>\<open>results\<close> that records how a promise settled.\<close>

fun settled_entry :: "('a, 'e) settled \<Rightarrow> ('a option, 'e) settled" where
  "settled_entry (Fulfilled v) = Fulfilled (Some v)"
| "settled_entry (Rejected reason) = Rejected reason"

text \<open>
  \<^verbatim>\<open>
  export function* initiateFilesGenerator<T>(fileIds, initiateFn) {
    for (const fileId of fileIds) {
      yield initiateFn(fileId);
    }
  }
  \<close>
  A call of \<^verbatim>\<open>initiateFn\<close> returns a promise, which the generator yields, or throws,
  and then the generator throws.
\<close>

definition initiateFilesGenerator ::
  "FileId list \<Rightarrow> (FileId \<Rightarrow> ('a, 'e) advanced) \<Rightarrow> ('a, 'e) advanced list" where
  "initiateFilesGenerator fileIds initiateFn = map initiateFn fileIds"

text \<open>
  The drain as the specification words it: the capacity is read again from the active set
  before each queued item is considered.
\<close>

fun drain_spec :: "uploads \<Rightarrow> QueueItem list \<Rightarrow> uploads \<times> QueueItem list \<times> QueueItem list" where
  "drain_spec active [] = (active, [], [])"
| "drain_spec active (next # q) =
     (if Map_size active < slotsFor active
      then (case drain_spec (Map_set (fileId next) (fileSize next) active) q of
              (active', q', rs) \<Rightarrow> (active', q', next # rs))
      else (active, next # q, []))"

subsection \<open>States and request sequences used as examples\<close>

text \<open>Sizes are in bytes: 31457280 is 30 MiB, 104857600 is 100 MiB.\<close>

definition five_small_one_waiting :: coordinator where
  "five_small_one_waiting =
     \<lparr>activeUploads = [(''S1'', 31457280), (''S2'', 31457280), (''S3'', 31457280),
                       (''S4'', 31457280), (''S5'', 31457280)],
      queue = [\<lparr>fileId = ''L1'', fileSize = 104857600\<rparr>]\<rparr>"

definition four_small :: coordinator where
  "four_small =
     \<lparr>activeUploads = [(''S2'', 31457280), (''S3'', 31457280), (''S4'', 31457280),
                       (''S5'', 31457280)],
      queue = []\<rparr>"

definition large_then_small_waiting :: coordinator where
  "large_then_small_waiting =
     \<lparr>activeUploads = [(''L0'', 104857600), (''S1'', 31457280), (''S2'', 31457280)],
      queue = [\<lparr>fileId = ''L1'', fileSize = 104857600\<rparr>,
               \<lparr>fileId = ''S3'', fileSize = 31457280\<rparr>,
               \<lparr>fileId = ''S4'', fileSize = 31457280\<rparr>]\<rparr>"

definition fifo_requests :: "request list" where
  "fifo_requests =
     [Acquire ''S1'' 31457280, Acquire ''S2'' 31457280, Acquire ''S3'' 31457280,
      Acquire ''S4'' 31457280, Acquire ''S5'' 31457280, Acquire ''L1'' 104857600,
      Acquire ''S6'' 31457280, Release ''S1'', Release ''S2'', Release ''S3'',
      Release ''S4'']"

definition three_promises :: "(int, string) settled list" where
  "three_promises = [Fulfilled 10, Rejected ''boom'', Fulfilled 30]"

definition schedule_in_order :: "driver_event list" where
  "schedule_in_order =
     [Advance, Advance, Settle 0, Advance, Advance, Settle 1, Advance, Advance, Settle 2, Advance]"

definition schedule_out_of_order :: "driver_event list" where
  "schedule_out_of_order =
     [Advance, Advance, Settle 1, Settle 0, Advance, Advance, Advance, Settle 2, Advance]"

text \<open>An \<^verbatim>\<open>initiateFn\<close> that throws for the file \<open>b\<close> and returns a promise otherwise.\<close>

definition throwing_initiateFn :: "FileId \<Rightarrow> (int, string) advanced" where
  "throwing_initiateFn fid = (if fid = ''b'' then Throws ''boom'' else Yields (Fulfilled 10))"


section \<open>Invariants of the driver\<close>

text \<open>
  What holds of the driver in every state it reaches on the generator \<open>gen\<close>:
  \<^item> \<open>driver_wf\<close>: the generator is what is left of \<open>gen\<close> after the promises taken so far,
    and every worker in flight has an index below \<^verbatim>\<open>results.length\<close> and waits for the
    promise that \<open>gen\<close> yields at that index; no index is in flight twice;
  \<^item> \<open>driver_recorded\<close>: the entry of every index that is no longer in flight records how
    the promise yielded at that index settled;
  \<^item> \<open>phase_fine\<close>: no awaited promise has been rejected, and the function has thrown only
    what the generator throws at its head;
  \<^item> \<open>driver_bounded\<close>: when two or more workers are in flight, the comparison with the
    limit was false with one worker fewer; in the loop it is false for the workers in
    flight;
  \<^item> \<open>driver_live\<close>: what the phases say about the generator and the workers.
  \<open>driver_measure\<close> decreases with every event that changes the state.
\<close>

definition driver_wf :: "('a, 'e) advanced list \<Rightarrow> ('a, 'e) driver \<Rightarrow> bool" where
  "driver_wf gen d \<longleftrightarrow>
     length (results d) \<le> length gen \<and>
     generator d = drop (length (results d)) gen \<and>
     distinct (map fst (executing d)) \<and>
     (\<forall>(i, p) \<in> set (executing d). i < length (results d) \<and> gen ! i = Yields p)"

definition driver_recorded :: "('a, 'e) advanced list \<Rightarrow> ('a, 'e) driver \<Rightarrow> bool" where
  "driver_recorded gen d \<longleftrightarrow>
     (\<forall>i < length (results d).
        i \<notin> fst ` set (executing d) \<longrightarrow>
        (\<exists>p. gen ! i = Yields p \<and> results d ! i = settled_entry p))"

fun phase_fine :: "'e driver_phase \<Rightarrow> ('a, 'e) advanced list \<Rightarrow> bool" where
  "phase_fine (Threw reason) (Throws r # rest) = (r = reason)"
| "phase_fine (Threw reason) g = False"
| "phase_fine (AllRejected reason) g = False"
| "phase_fine (RaceSettled (Rejected reason)) g = False"
| "phase_fine p g = True"

definition driver_bounded :: "js_number \<Rightarrow> ('a, 'e) driver \<Rightarrow> bool" where
  "driver_bounded L d \<longleftrightarrow>
     (length (executing d) \<le> 1 \<or> \<not> size_ge (length (executing d) - 1) L) \<and>
     ((phase d = Running \<or> (\<exists>w. phase d = RaceSettled w))
        \<longrightarrow> executing d = [] \<or> \<not> size_ge (length (executing d)) L)"

definition driver_live :: "('a, 'e) driver \<Rightarrow> bool" where
  "driver_live d \<longleftrightarrow>
     (phase d = AwaitAll \<or> phase d = Returned \<longrightarrow> generator d = []) \<and>
     (phase d = Returned \<longrightarrow> executing d = []) \<and>
     (phase d = AwaitRace \<longrightarrow> executing d \<noteq> [])"

definition driver_inv :: "('a, 'e) advanced list \<Rightarrow> js_number \<Rightarrow> ('a, 'e) driver \<Rightarrow> bool" where
  "driver_inv gen L d \<longleftrightarrow>
     driver_wf gen d \<and> driver_recorded gen d \<and> phase_fine (phase d) (generator d) \<and>
     driver_bounded L d \<and> driver_live d"

fun phase_rank :: "'e driver_phase \<Rightarrow> nat" where
  "phase_rank Returned = 0"
| "phase_rank AwaitAll = 1"
| "phase_rank Running = 2"
| "phase_rank AwaitRace = 2"
| "phase_rank (RaceSettled w) = 3"
| "phase_rank (AllRejected reason) = 1"
| "phase_rank (Threw reason) = 0"

definition driver_measure :: "('a, 'e) driver \<Rightarrow> nat" where
  "driver_measure d = 3 * length (generator d) + 2 * length (executing d) + phase_rank (phase d)"

section \<open>Facts about the map and the drain loop\<close>

lemma Map_delete_filter: "Map_delete k m = filter (\<lambda>p. fst p \<noteq> k) m"
  by (induction m) auto

lemma keys_Map_set_iff: "k' \<in> fst ` set (Map_set k v m) \<longleftrightarrow> k' = k \<or> k' \<in> fst ` set m"
  by (induction m) force+

lemma keys_Map_set: "fst ` set (Map_set k v m) = insert k (fst ` set m)"
  using keys_Map_set_iff by blast

lemma keys_Map_delete: "fst ` set (Map_delete k m) = fst ` set m - {k}"
  unfolding Map_delete_filter by force

lemma length_Map_set_le: "length (Map_set k v m) \<le> Suc (length m)"
  by (induction m) auto


lemma length_Map_delete_le: "length (Map_delete k m) \<le> length m"
  by (induction m) (auto simp: le_SucI)

lemma slotsFor_large: "(k, v) \<in> set m \<Longrightarrow> v > SMALL_FILE_THRESHOLD \<Longrightarrow> slotsFor m = MAX_CONCURRENT_LARGE"
  by (induction m) auto

lemma slotsFor_small: "\<forall>(k, v) \<in> set m. v \<le> SMALL_FILE_THRESHOLD \<Longrightarrow> slotsFor m = MAX_CONCURRENT_SMALL"
  by (induction m) auto

lemma slotsFor_le: "slotsFor m \<le> MAX_CONCURRENT_SMALL"
  by (induction m) (auto simp: MAX_CONCURRENT_SMALL_def MAX_CONCURRENT_LARGE_def)




lemma loop_queue:
  "processQueue_loop n a q = (a', q', rs) \<Longrightarrow> q = rs @ q'"
  by (induction q arbitrary: a a' q' rs) (auto split: if_splits prod.splits)

lemma loop_length:
  "processQueue_loop n a q = (a', q', rs) \<Longrightarrow> length a' \<le> max (length a) n"
proof (induction q arbitrary: a a' q' rs)
  case Nil
  then show ?case by simp
next
  case (Cons x q)
  show ?case
  proof (cases "Map_size a < n")
    case True
    then obtain rs' where "processQueue_loop n (Map_set (fileId x) (fileSize x) a) q = (a', q', rs')"
      using Cons.prems by (auto split: prod.splits)
    from Cons.IH[OF this] have "length a' \<le> max (length (Map_set (fileId x) (fileSize x) a)) n" .
    moreover have "length (Map_set (fileId x) (fileSize x) a) \<le> n"
      using True length_Map_set_le[of "fileId x" "fileSize x" a] by (simp add: Map_size_def)
    ultimately show ?thesis by simp
  next
    case False
    then show ?thesis using Cons.prems by simp
  qed
qed


lemma loop_keys:
  "processQueue_loop n a q = (a', q', rs) \<Longrightarrow> fst ` set a' = fst ` set a \<union> fileId ` set rs"
proof (induction q arbitrary: a a' q' rs)
  case Nil
  then show ?case by simp
next
  case (Cons x q)
  show ?case
  proof (cases "Map_size a < n")
    case True
    then obtain rs' where *: "processQueue_loop n (Map_set (fileId x) (fileSize x) a) q = (a', q', rs')"
      and "rs = x # rs'"
      using Cons.prems by (auto split: prod.splits)
    from Cons.IH[OF *] show ?thesis using \<open>rs = x # rs'\<close> by (simp add: keys_Map_set)
  next
    case False
    then show ?thesis using Cons.prems by simp
  qed
qed

section \<open>Capacity and reset\<close>

text \<open>
  Claim C8. For every set of active uploads, the capacity is 5 when every active item has
  size at most the threshold (65 MiB, that is 68157440 bytes) and 3 when at least one
  active item is larger than the threshold.
\<close>

theorem capacity_by_size_class:
  "SMALL_FILE_THRESHOLD = 68157440 \<and>
   ((\<forall>(k, v) \<in> set (activeUploads s). v \<le> SMALL_FILE_THRESHOLD)
      \<longrightarrow> getMaxConcurrentSlots s = 5) \<and>
   ((\<exists>(k, v) \<in> set (activeUploads s). v > SMALL_FILE_THRESHOLD)
      \<longrightarrow> getMaxConcurrentSlots s = 3)"
proof (intro conjI impI)
  show "SMALL_FILE_THRESHOLD = 68157440" by (simp add: SMALL_FILE_THRESHOLD_def)
next
  assume "\<forall>(k, v) \<in> set (activeUploads s). v \<le> SMALL_FILE_THRESHOLD"
  then show "getMaxConcurrentSlots s = 5"
    by (simp add: getMaxConcurrentSlots_def slotsFor_small MAX_CONCURRENT_SMALL_def)
next
  assume "\<exists>(k, v) \<in> set (activeUploads s). v > SMALL_FILE_THRESHOLD"
  then obtain k v where "(k, v) \<in> set (activeUploads s)" "v > SMALL_FILE_THRESHOLD" by auto
  then show "getMaxConcurrentSlots s = 3"
    by (simp add: getMaxConcurrentSlots_def slotsFor_large MAX_CONCURRENT_LARGE_def)
qed

theorem capacity_by_size_class_witness:
  "getMaxConcurrentSlots \<lparr>activeUploads = [(''S1'', 31457280), (''S2'', 68157440)], queue = []\<rparr> = 5 \<and>
   getMaxConcurrentSlots \<lparr>activeUploads = [(''S1'', 31457280), (''L1'', 68157441)], queue = []\<rparr> = 3"
proof
  have "\<forall>(k, v) \<in> set (activeUploads \<lparr>activeUploads = [(''S1'', 31457280), (''S2'', 68157440)], queue = []\<rparr>).
          v \<le> SMALL_FILE_THRESHOLD"
    by (simp add: SMALL_FILE_THRESHOLD_def)
  with capacity_by_size_class
  show "getMaxConcurrentSlots \<lparr>activeUploads = [(''S1'', 31457280), (''S2'', 68157440)], queue = []\<rparr> = 5"
    by blast
next
  have "\<exists>(k, v) \<in> set (activeUploads \<lparr>activeUploads = [(''S1'', 31457280), (''L1'', 68157441)], queue = []\<rparr>).
          v > SMALL_FILE_THRESHOLD"
    by (simp add: SMALL_FILE_THRESHOLD_def)
  with capacity_by_size_class
  show "getMaxConcurrentSlots \<lparr>activeUploads = [(''S1'', 31457280), (''L1'', 68157441)], queue = []\<rparr> = 3"
    by blast
qed

text \<open>
  Claim C9. Whatever the state before, \<open>resetCoordinator\<close> leaves the active set and the
  queue empty; the state is the freshly loaded one, so an acquire after a reset behaves as
  on a fresh module: the candidate, small or large, is admitted at once. The same holds
  for the older version of the module.
\<close>

theorem reset_gives_fresh_state:
  "activeUploads (resetCoordinator s) = [] \<and> queue (resetCoordinator s) = [] \<and>
   resetCoordinator (c :: coordinator) = fresh \<and>
   acquireUploadSlot fid fsize (resetCoordinator c) = acquireUploadSlot fid fsize fresh \<and>
   acquireUploadSlot fid fsize (resetCoordinator c) =
     (\<lparr>activeUploads = [(fid, fsize)], queue = []\<rparr>, True) \<and>
   activeUploads (resetCoordinator_legacy l) = [] \<and> queue (resetCoordinator_legacy l) = [] \<and>
   resetCoordinator_legacy l = fresh_legacy \<and>
   acquireUploadSlot fid fsize (resetCoordinator_legacy l) =
     (\<lparr>activeUploads = [(fid, fsize)], queue = [], activeInitiates = [], initiateQueue = []\<rparr>, True)"
  by (simp add: resetCoordinator_def resetCoordinator_legacy_def fresh_def fresh_legacy_def
      acquireUploadSlot_def getMaxConcurrentSlots_def Map_size_def MAX_CONCURRENT_SMALL_def)

section \<open>The active set never holds more than five uploads\<close>

lemma processQueue_length:
  "Map_size (activeUploads (fst (processQueue s)))
     \<le> max (Map_size (activeUploads s)) MAX_CONCURRENT_SMALL"
proof (cases "queue s = []")
  case True
  then show ?thesis by (simp add: processQueue_def)
next
  case False
  obtain a' q' rs where *: "processQueue_loop (getMaxConcurrentSlots s) (activeUploads s) (queue s) = (a', q', rs)"
    by (cases "processQueue_loop (getMaxConcurrentSlots s) (activeUploads s) (queue s)") auto
  from loop_length[OF *] slotsFor_le[of "activeUploads s"]
  have "length a' \<le> max (length (activeUploads s)) MAX_CONCURRENT_SMALL"
    by (simp add: getMaxConcurrentSlots_def)
  with False * show ?thesis by (simp add: processQueue_def Map_size_def)
qed

lemma acquire_length:
  "Map_size (activeUploads (fst (acquireUploadSlot fid fsize s)))
     \<le> max (Map_size (activeUploads s)) MAX_CONCURRENT_SMALL"
  using slotsFor_le[of "activeUploads s"] length_Map_set_le[of fid fsize "activeUploads s"]
  by (simp add: acquireUploadSlot_def getMaxConcurrentSlots_def Map_size_def)

lemma release_length:
  "Map_size (activeUploads (fst (releaseUploadSlot fid s)))
     \<le> max (Map_size (activeUploads s)) MAX_CONCURRENT_SMALL"
  using processQueue_length[of "s\<lparr>activeUploads := Map_delete fid (activeUploads s)\<rparr>"]
    length_Map_delete_le[of fid "activeUploads s"]
  by (simp add: releaseUploadSlot_def Map_size_def)

lemma step_length:
  "Map_size (activeUploads (step r s)) \<le> max (Map_size (activeUploads s)) MAX_CONCURRENT_SMALL"
proof (cases r)
  case (Acquire fid fsize)
  then show ?thesis using acquire_length[of fid fsize s] by simp
next
  case (Release fid)
  then show ?thesis using release_length[of fid s] by simp
next
  case Reset
  then show ?thesis by (simp add: resetCoordinator_def Map_size_def)
qed

lemma run_length:
  "Map_size (activeUploads s) \<le> MAX_CONCURRENT_SMALL
     \<Longrightarrow> Map_size (activeUploads (run rs s)) \<le> MAX_CONCURRENT_SMALL"
proof (induction rs arbitrary: s)
  case Nil
  then show ?case by simp
next
  case (Cons r rs)
  from step_length[of r s] Cons.prems
  have "Map_size (activeUploads (step r s)) \<le> MAX_CONCURRENT_SMALL" by simp
  from Cons.IH[OF this] show ?case by simp
qed

text \<open>
  Claim C10. The capacity is never more than 5, and every path that inserts into the active
  set (the immediate admission of \<open>acquireUploadSlot\<close> and each step of the loop of
  \<open>processQueue\<close>) inserts only below a bound that is at most 5. So the active set holds
  at most 5 uploads in every state reachable from the fresh one, and acquire, release,
  drain and reset each keep the bound.
\<close>

theorem active_count_at_most_five:
  "MAX_CONCURRENT_SMALL = 5 \<and>
   getMaxConcurrentSlots s \<le> 5 \<and>
   Map_size (activeUploads (run rs fresh)) \<le> 5 \<and>
   (Map_size (activeUploads s) \<le> 5 \<longrightarrow>
      Map_size (activeUploads (fst (acquireUploadSlot fid fsize s))) \<le> 5 \<and>
      Map_size (activeUploads (fst (releaseUploadSlot fid s))) \<le> 5 \<and>
      Map_size (activeUploads (fst (processQueue s))) \<le> 5 \<and>
      Map_size (activeUploads (resetCoordinator s)) \<le> 5 \<and>
      Map_size (activeUploads (run rs s)) \<le> 5)"
proof -
  have five: "MAX_CONCURRENT_SMALL = 5" by (simp add: MAX_CONCURRENT_SMALL_def)
  have "Map_size (activeUploads fresh) \<le> MAX_CONCURRENT_SMALL"
    by (simp add: fresh_def Map_size_def)
  from run_length[OF this] have reach: "Map_size (activeUploads (run rs fresh)) \<le> 5"
    by (simp add: five)
  have cap: "getMaxConcurrentSlots s \<le> 5"
    using slotsFor_le[of "activeUploads s"] by (simp add: getMaxConcurrentSlots_def five)
  have pres: "Map_size (activeUploads (fst (acquireUploadSlot fid fsize s))) \<le> 5 \<and>
      Map_size (activeUploads (fst (releaseUploadSlot fid s))) \<le> 5 \<and>
      Map_size (activeUploads (fst (processQueue s))) \<le> 5 \<and>
      Map_size (activeUploads (resetCoordinator s)) \<le> 5 \<and>
      Map_size (activeUploads (run rs s)) \<le> 5" if "Map_size (activeUploads s) \<le> 5"
    using that acquire_length[of fid fsize s] release_length[of fid s] processQueue_length[of s]
      run_length[of s rs]
    by (simp add: five resetCoordinator_def Map_size_def)
  from five cap reach pres show ?thesis by blast
qed

theorem active_count_at_most_five_witness:
  "Map_size (activeUploads five_small_one_waiting) = 5 \<and>
   Map_size (activeUploads (fst (acquireUploadSlot ''S6'' 31457280 five_small_one_waiting))) \<le> 5 \<and>
   Map_size (activeUploads (fst (releaseUploadSlot ''S1'' five_small_one_waiting))) \<le> 5"
proof -
  have h: "Map_size (activeUploads five_small_one_waiting) = 5"
    by (simp add: five_small_one_waiting_def Map_size_def)
  then have "Map_size (activeUploads five_small_one_waiting) \<le> 5" by simp
  with active_count_at_most_five[of five_small_one_waiting "[]" "''S6''" 31457280]
    active_count_at_most_five[of five_small_one_waiting "[]" "''S1''" 31457280] h
  show ?thesis by blast
qed

section \<open>Admission of a large candidate\<close>

lemma processQueue_loop_eq:
  "processQueue s =
     (case processQueue_loop (getMaxConcurrentSlots s) (activeUploads s) (queue s) of
        (a', q', rs) \<Rightarrow> (s\<lparr>activeUploads := a', queue := q'\<rparr>, rs))"
  by (cases "queue s = []") (simp_all add: processQueue_def)

lemma processQueue_prefix: "queue s = snd (processQueue s) @ queue (fst (processQueue s))"
proof -
  obtain a' q' rs where *: "processQueue_loop (getMaxConcurrentSlots s) (activeUploads s) (queue s) = (a', q', rs)"
    by (cases "processQueue_loop (getMaxConcurrentSlots s) (activeUploads s) (queue s)") auto
  from loop_queue[OF *] * show ?thesis by (simp add: processQueue_loop_eq)
qed


lemma processQueue_keys:
  "fst ` set (activeUploads (fst (processQueue s)))
     = fst ` set (activeUploads s) \<union> fileId ` set (snd (processQueue s))"
proof -
  obtain a' q' rs where *: "processQueue_loop (getMaxConcurrentSlots s) (activeUploads s) (queue s) = (a', q', rs)"
    by (cases "processQueue_loop (getMaxConcurrentSlots s) (activeUploads s) (queue s)") auto
  from loop_keys[OF *] * show ?thesis by (simp add: processQueue_loop_eq)
qed











section \<open>The queue is first in, first out\<close>

lemma pushed_append: "pushed (xs @ ys) = pushed xs @ pushed ys"
  by (induction xs rule: pushed.induct) simp_all

lemma left_queue_append: "left_queue (xs @ ys) = left_queue xs @ left_queue ys"
  by (induction xs rule: left_queue.induct) simp_all

lemma resolved_append: "resolved (xs @ ys) = resolved xs @ resolved ys"
  by (induction xs rule: resolved.induct) simp_all

lemma pushed_map_Resolved: "pushed (map Resolved xs) = []"
  by (induction xs) simp_all

lemma pushed_map_Cleared: "pushed (map Cleared xs) = []"
  by (induction xs) simp_all

lemma left_queue_map_Resolved: "left_queue (map Resolved xs) = xs"
  by (induction xs) simp_all

lemma left_queue_map_Cleared: "left_queue (map Cleared xs) = xs"
  by (induction xs) simp_all

lemma step_fifo: "queue s @ pushed (events r s) = left_queue (events r s) @ queue (step r s)"
proof (cases r)
  case (Acquire fid fsize)
  then show ?thesis by (simp add: acquireUploadSlot_def)
next
  case (Release fid)
  then show ?thesis
    using processQueue_prefix[of "s\<lparr>activeUploads := Map_delete fid (activeUploads s)\<rparr>"]
    by (simp add: releaseUploadSlot_def pushed_map_Resolved left_queue_map_Resolved)
next
  case Reset
  then show ?thesis
    by (simp add: resetCoordinator_def pushed_map_Cleared left_queue_map_Cleared)
qed

lemma run_fifo: "queue s @ pushed (trace rs s) = left_queue (trace rs s) @ queue (run rs s)"
proof (induction rs arbitrary: s)
  case Nil
  then show ?case by simp
next
  case (Cons r rs)
  have "queue s @ pushed (trace (r # rs) s)
      = (queue s @ pushed (events r s)) @ pushed (trace rs (step r s))"
    by (simp add: pushed_append)
  also have "\<dots> = left_queue (events r s) @ (queue (step r s) @ pushed (trace rs (step r s)))"
    by (simp add: step_fifo)
  also have "\<dots> = left_queue (events r s) @ left_queue (trace rs (step r s)) @ queue (run rs (step r s))"
    by (simp add: Cons.IH)
  finally show ?case by (simp add: left_queue_append)
qed

lemma events_no_Cleared: "r \<noteq> Reset \<Longrightarrow> left_queue (events r s) = resolved (events r s)"
proof (cases r)
  case (Release fid)
  have "left_queue (map Resolved xs) = resolved (map Resolved xs)" for xs
    by (induction xs) simp_all
  with Release show ?thesis by simp
qed simp_all

lemma trace_no_Cleared: "Reset \<notin> set rs \<Longrightarrow> left_queue (trace rs s) = resolved (trace rs s)"
proof (induction rs arbitrary: s)
  case Nil
  then show ?case by simp
next
  case (Cons r rs)
  then have "r \<noteq> Reset" "Reset \<notin> set rs" by auto
  with Cons.IH[of "step r s"] events_no_Cleared[of r s]
  show ?case by (simp add: left_queue_append resolved_append)
qed

text \<open>
  Claim C5. Items leave the queue in the order they were pushed: over any sequence of
  requests, the queue at the start followed by the items pushed is the items that left the
  queue (resolved by a drain, or thrown away by a reset) followed by the queue at the end;
  without a reset the items that left are exactly the items admitted. A drain admits a
  prefix of the queue, so when the head is not admitted nothing behind it is, and
  \<open>acquireUploadSlot\<close> pushes at the tail only.
\<close>

theorem queue_is_first_in_first_out:
  "queue s @ pushed (trace rs s) = left_queue (trace rs s) @ queue (run rs s) \<and>
   (Reset \<notin> set rs \<longrightarrow>
      queue s @ pushed (trace rs s) = resolved (trace rs s) @ queue (run rs s)) \<and>
   queue s = snd (processQueue s) @ queue (fst (processQueue s)) \<and>
   queue s = snd (releaseUploadSlot fid s) @ queue (fst (releaseUploadSlot fid s)) \<and>
   (queue s \<noteq> [] \<and> hd (queue s) \<notin> set (snd (processQueue s)) \<longrightarrow> snd (processQueue s) = []) \<and>
   queue (fst (acquireUploadSlot fid fsize s))
     = (if snd (acquireUploadSlot fid fsize s) then queue s
        else queue s @ [\<lparr>fileId = fid, fileSize = fsize\<rparr>])"
proof (intro conjI impI)
  show "queue s @ pushed (trace rs s) = left_queue (trace rs s) @ queue (run rs s)"
    by (rule run_fifo)
  show "queue s @ pushed (trace rs s) = resolved (trace rs s) @ queue (run rs s)"
    if "Reset \<notin> set rs"
    using run_fifo[of s rs] trace_no_Cleared[OF that, of s] by simp
  show p: "queue s = snd (processQueue s) @ queue (fst (processQueue s))"
    by (rule processQueue_prefix)
  show "queue s = snd (releaseUploadSlot fid s) @ queue (fst (releaseUploadSlot fid s))"
    using processQueue_prefix[of "s\<lparr>activeUploads := Map_delete fid (activeUploads s)\<rparr>"]
    by (simp add: releaseUploadSlot_def)
  show "snd (processQueue s) = []"
    if "queue s \<noteq> [] \<and> hd (queue s) \<notin> set (snd (processQueue s))"
  proof (rule ccontr)
    assume "snd (processQueue s) \<noteq> []"
    then obtain x xs where "snd (processQueue s) = x # xs" by (cases "snd (processQueue s)") auto
    with p have "hd (queue s) = x" by (metis append_Cons list.sel(1))
    with that \<open>snd (processQueue s) = x # xs\<close> show False by simp
  qed
  show "queue (fst (acquireUploadSlot fid fsize s))
     = (if snd (acquireUploadSlot fid fsize s) then queue s
        else queue s @ [\<lparr>fileId = fid, fileSize = fsize\<rparr>])"
    by (simp add: acquireUploadSlot_def)
qed

lemma fifo_requests_run:
  "run fifo_requests fresh =
     \<lparr>activeUploads = [(''S5'', 31457280), (''L1'', 104857600), (''S6'', 31457280)], queue = []\<rparr>"
  by (simp add: fifo_requests_def fresh_def acquireUploadSlot_def releaseUploadSlot_def
      processQueue_def getMaxConcurrentSlots_def Map_size_def SMALL_FILE_THRESHOLD_def
      MAX_CONCURRENT_SMALL_def MAX_CONCURRENT_LARGE_def)

lemma fifo_requests_trace:
  "trace fifo_requests fresh =
     [Pushed \<lparr>fileId = ''L1'', fileSize = 104857600\<rparr>, Pushed \<lparr>fileId = ''S6'', fileSize = 31457280\<rparr>,
      Resolved \<lparr>fileId = ''L1'', fileSize = 104857600\<rparr>, Resolved \<lparr>fileId = ''S6'', fileSize = 31457280\<rparr>]"
  by (simp add: fifo_requests_def fresh_def acquireUploadSlot_def releaseUploadSlot_def
      processQueue_def getMaxConcurrentSlots_def Map_size_def SMALL_FILE_THRESHOLD_def
      MAX_CONCURRENT_SMALL_def MAX_CONCURRENT_LARGE_def)

theorem queue_is_first_in_first_out_witness:
  "Reset \<notin> set fifo_requests \<and>
   pushed (trace fifo_requests fresh) = resolved (trace fifo_requests fresh) \<and>
   resolved (trace fifo_requests fresh)
     = [\<lparr>fileId = ''L1'', fileSize = 104857600\<rparr>, \<lparr>fileId = ''S6'', fileSize = 31457280\<rparr>] \<and>
   queue five_small_one_waiting \<noteq> [] \<and>
   hd (queue five_small_one_waiting) \<notin> set (snd (processQueue five_small_one_waiting)) \<and>
   snd (processQueue five_small_one_waiting) = []"
proof -
  have nr: "Reset \<notin> set fifo_requests" by (simp add: fifo_requests_def)
  with queue_is_first_in_first_out[of fresh fifo_requests]
  have "queue fresh @ pushed (trace fifo_requests fresh)
      = resolved (trace fifo_requests fresh) @ queue (run fifo_requests fresh)" by blast
  then have eq: "pushed (trace fifo_requests fresh) = resolved (trace fifo_requests fresh)"
    by (simp add: fifo_requests_run) (simp add: fresh_def)
  have r: "resolved (trace fifo_requests fresh)
     = [\<lparr>fileId = ''L1'', fileSize = 104857600\<rparr>, \<lparr>fileId = ''S6'', fileSize = 31457280\<rparr>]"
    by (simp add: fifo_requests_trace)
  have h: "queue five_small_one_waiting \<noteq> [] \<and>
     hd (queue five_small_one_waiting) \<notin> set (snd (processQueue five_small_one_waiting))"
    by (simp add: five_small_one_waiting_def processQueue_def getMaxConcurrentSlots_def
        Map_size_def SMALL_FILE_THRESHOLD_def MAX_CONCURRENT_SMALL_def)
  with queue_is_first_in_first_out[of five_small_one_waiting]
  have "snd (processQueue five_small_one_waiting) = []" by blast
  with nr eq r h show ?thesis by simp
qed

section \<open>The drain reads the capacity once\<close>

text \<open>
  Claim C1 says that a drain reads the capacity again before each queued item. The code
  reads it once, before the loop. With a large upload and two small ones active and a
  large and two small items waiting, releasing the active large upload admits all three
  waiting items: the two small ones are admitted while three uploads, one of them large,
  are active and the capacity of that active set is 3. The drain of the specification
  stops after the large item.
\<close>

theorem processQueue_reads_capacity_once:
  "run [Acquire ''L0'' 104857600, Acquire ''S1'' 31457280, Acquire ''S2'' 31457280,
        Acquire ''L1'' 104857600, Acquire ''S3'' 31457280, Acquire ''S4'' 31457280] fresh
     = large_then_small_waiting \<and>
   releaseUploadSlot ''L0'' large_then_small_waiting
     = (\<lparr>activeUploads = [(''S1'', 31457280), (''S2'', 31457280), (''L1'', 104857600),
                          (''S3'', 31457280), (''S4'', 31457280)],
         queue = []\<rparr>,
        [\<lparr>fileId = ''L1'', fileSize = 104857600\<rparr>, \<lparr>fileId = ''S3'', fileSize = 31457280\<rparr>,
         \<lparr>fileId = ''S4'', fileSize = 31457280\<rparr>]) \<and>
   slotsFor [(''S1'', 31457280), (''S2'', 31457280), (''L1'', 104857600)] = 3 \<and>
   Map_size [(''S1'', 31457280), (''S2'', 31457280), (''L1'', 104857600)] = 3 \<and>
   drain_spec [(''S1'', 31457280), (''S2'', 31457280)] (queue large_then_small_waiting)
     = ([(''S1'', 31457280), (''S2'', 31457280), (''L1'', 104857600)],
        [\<lparr>fileId = ''S3'', fileSize = 31457280\<rparr>, \<lparr>fileId = ''S4'', fileSize = 31457280\<rparr>],
        [\<lparr>fileId = ''L1'', fileSize = 104857600\<rparr>])"
  by (simp add: large_then_small_waiting_def fresh_def acquireUploadSlot_def
      releaseUploadSlot_def processQueue_def getMaxConcurrentSlots_def Map_size_def
      SMALL_FILE_THRESHOLD_def MAX_CONCURRENT_SMALL_def MAX_CONCURRENT_LARGE_def)

section \<open>The upload wrapper releases its slot\<close>

lemma processFileUpload_settle_eq:
  "processFileUpload_settle fid outcome s
     = (fst (releaseUploadSlot fid s), snd (releaseUploadSlot fid s), Done outcome)"
  by (cases outcome) (simp_all add: processFileUpload_settle_def split: prod.splits)

lemma release_keys:
  "fst ` set (activeUploads (fst (releaseUploadSlot fid s)))
     = (fst ` set (activeUploads s) - {fid}) \<union> fileId ` set (snd (releaseUploadSlot fid s))"
  using processQueue_keys[of "s\<lparr>activeUploads := Map_delete fid (activeUploads s)\<rparr>"]
  by (simp add: releaseUploadSlot_def keys_Map_delete)

text \<open>
  Claim C6. When the upload of \<open>processFileUpload\<close> settles, fulfilled or rejected, the
  wrapper calls \<open>releaseUploadSlot\<close> and settles the same way. The release deletes the
  id from the active set and then drains; after it the id is in the active set only if
  the drain admitted a queued item with the same id, so it is absent when no queued item
  has that id. On entry to the upload the id holds a slot.
\<close>

theorem slot_released_on_every_exit:
  "fst (processFileUpload_settle fid outcome s) = fst (releaseUploadSlot fid s) \<and>
   fst (snd (processFileUpload_settle fid outcome s)) = snd (releaseUploadSlot fid s) \<and>
   snd (snd (processFileUpload_settle fid outcome s)) = Done outcome \<and>
   fst (releaseUploadSlot fid s)
     = fst (processQueue (s\<lparr>activeUploads := Map_delete fid (activeUploads s)\<rparr>)) \<and>
   \<not> Map_has fid (Map_delete fid (activeUploads s)) \<and>
   (Map_has fid (activeUploads (fst (processFileUpload_settle fid outcome s)))
      \<longrightarrow> fid \<in> fileId ` set (fst (snd (processFileUpload_settle fid outcome s)))) \<and>
   (fid \<notin> fileId ` set (queue s)
      \<longrightarrow> \<not> Map_has fid (activeUploads (fst (processFileUpload_settle fid outcome s)))) \<and>
   (snd (processFileUpload_start fid fsize s) = (Uploading :: ('a, 'e) upload_task)
      \<longrightarrow> Map_has fid (activeUploads (fst (processFileUpload_start fid fsize s :: _ \<times> ('a, 'e) upload_task))))"
proof (intro conjI impI)
  show "fst (processFileUpload_settle fid outcome s) = fst (releaseUploadSlot fid s)"
    and "fst (snd (processFileUpload_settle fid outcome s)) = snd (releaseUploadSlot fid s)"
    and "snd (snd (processFileUpload_settle fid outcome s)) = Done outcome"
    by (simp_all add: processFileUpload_settle_eq)
  show "fst (releaseUploadSlot fid s)
     = fst (processQueue (s\<lparr>activeUploads := Map_delete fid (activeUploads s)\<rparr>))"
    by (simp add: releaseUploadSlot_def)
  show "\<not> Map_has fid (Map_delete fid (activeUploads s))"
    by (simp add: Map_has_def keys_Map_delete)
  show "fid \<in> fileId ` set (fst (snd (processFileUpload_settle fid outcome s)))"
    if "Map_has fid (activeUploads (fst (processFileUpload_settle fid outcome s)))"
    using that release_keys[of fid s] by (simp add: processFileUpload_settle_eq Map_has_def)
  show "\<not> Map_has fid (activeUploads (fst (processFileUpload_settle fid outcome s)))"
    if "fid \<notin> fileId ` set (queue s)"
  proof -
    have "queue s = snd (releaseUploadSlot fid s) @ queue (fst (releaseUploadSlot fid s))"
      using processQueue_prefix[of "s\<lparr>activeUploads := Map_delete fid (activeUploads s)\<rparr>"]
      by (simp add: releaseUploadSlot_def)
    with that have "fid \<notin> fileId ` set (snd (releaseUploadSlot fid s))"
      by (metis Un_iff image_Un set_append)
    then show ?thesis
      using release_keys[of fid s] by (simp add: processFileUpload_settle_eq Map_has_def)
  qed
  show "Map_has fid (activeUploads (fst (processFileUpload_start fid fsize s :: _ \<times> ('a, 'e) upload_task)))"
    if "snd (processFileUpload_start fid fsize s) = (Uploading :: ('a, 'e) upload_task)"
    using that
    by (auto simp: processFileUpload_start_def acquireUploadSlot_def Map_has_def keys_Map_set
        split: if_splits)
qed

theorem slot_released_on_every_exit_witness:
  "snd (processFileUpload_start ''S5'' 31457280 four_small) = (Uploading :: (unit, string) upload_task) \<and>
   Map_has ''S5'' (activeUploads
      (fst (processFileUpload_start ''S5'' 31457280 four_small :: _ \<times> (unit, string) upload_task))) \<and>
   ''S2'' \<notin> fileId ` set (queue five_small_one_waiting) \<and>
   \<not> Map_has ''S2'' (activeUploads
      (fst (processFileUpload_settle ''S2'' (Rejected ''network error'' :: (unit, string) settled)
         five_small_one_waiting))) \<and>
   \<not> Map_has ''S2'' (activeUploads
      (fst (processFileUpload_settle ''S2'' (Fulfilled () :: (unit, string) settled)
         five_small_one_waiting)))"
proof -
  have a: "snd (processFileUpload_start ''S5'' 31457280 four_small) = (Uploading :: (unit, string) upload_task)"
    by (simp add: processFileUpload_start_def acquireUploadSlot_def four_small_def
        getMaxConcurrentSlots_def Map_size_def SMALL_FILE_THRESHOLD_def MAX_CONCURRENT_SMALL_def)
  have b: "''S2'' \<notin> fileId ` set (queue five_small_one_waiting)"
    by (simp add: five_small_one_waiting_def)
  from a slot_released_on_every_exit[where ?'a = unit and ?'e = string, of "''S5''" "Fulfilled ()" four_small 31457280]
  have c: "Map_has ''S5'' (activeUploads
      (fst (processFileUpload_start ''S5'' 31457280 four_small :: _ \<times> (unit, string) upload_task)))"
    by blast
  from b slot_released_on_every_exit[of "''S2''" "Rejected ''network error'' :: (unit, string) settled" five_small_one_waiting]
  have d: "\<not> Map_has ''S2'' (activeUploads
      (fst (processFileUpload_settle ''S2'' (Rejected ''network error'' :: (unit, string) settled)
         five_small_one_waiting)))"
    by blast
  from b slot_released_on_every_exit[of "''S2''" "Fulfilled () :: (unit, string) settled" five_small_one_waiting]
  have e: "\<not> Map_has ''S2'' (activeUploads
      (fst (processFileUpload_settle ''S2'' (Fulfilled () :: (unit, string) settled)
         five_small_one_waiting)))"
    by blast
  from a b c d e show ?thesis by simp
qed

section \<open>The driver: invariants, termination, results\<close>

lemma worker_settles_eq:
  "worker_settles i p rs = (rs[i := settled_entry p], Fulfilled ())"
  by (cases p) (simp_all add: worker_settles_def)

lemma Set_delete_filter: "Set_delete i ws = filter (\<lambda>w. fst w \<noteq> i) ws"
  by (induction ws) auto

lemma Set_delete_le: "length (Set_delete i ws) \<le> length ws"
  by (induction ws) (auto simp: le_SucI)

lemma Set_delete_shorter: "map_of ws i = Some p \<Longrightarrow> length (Set_delete i ws) < length ws"
proof (induction ws)
  case Nil
  then show ?case by simp
next
  case (Cons w ws)
  obtain j q where w: "w = (j, q)" by (cases w)
  show ?case
  proof (cases "j = i")
    case True
    with w show ?thesis using Set_delete_le[of i ws] by (simp add: less_Suc_eq_le)
  next
    case False
    with w Cons show ?thesis by simp
  qed
qed

lemma size_ge_mono: "size_ge n L \<Longrightarrow> n \<le> m \<Longrightarrow> size_ge m L"
  by (cases L) simp_all

lemma settle_None: "map_of (executing d) i = None \<Longrightarrow> settle i d = d"
  by (simp add: settle_def)

lemma settle_Some:
  "map_of (executing d) i = Some p \<Longrightarrow>
   settle i d = d\<lparr>results := (results d)[i := settled_entry p],
                  executing := Set_delete i (executing d),
                  phase := (case phase d of AwaitRace \<Rightarrow> RaceSettled (Fulfilled ()) | ph \<Rightarrow> ph)\<rparr>"
  by (cases "phase d") (simp_all add: settle_def worker_settles_eq)

text \<open>The ways one event changes the state.\<close>

lemma driver_step_cases:
  obtains (same) "driver_step L e d = d"
  | (pull) p rest where "e = Advance" and "phase d = Running"
      and "generator d = Yields p # rest" and "driver_step L e d = loop_body L p d"
  | (throw) r rest where "e = Advance" and "phase d = Running"
      and "generator d = Throws r # rest" and "driver_step L e d = d\<lparr>phase := Threw r\<rparr>"
  | (exhausted) "e = Advance" and "phase d = Running" and "generator d = []"
      and "driver_step L e d = d\<lparr>phase := AwaitAll\<rparr>"
  | (resume) u where "e = Advance" and "phase d = RaceSettled (Fulfilled u)"
      and "driver_step L e d = d\<lparr>phase := Running\<rparr>"
  | (race_throw) r where "e = Advance" and "phase d = RaceSettled (Rejected r)"
      and "driver_step L e d = d\<lparr>phase := Threw r\<rparr>"
  | (return) "e = Advance" and "phase d = AwaitAll" and "executing d = []"
      and "driver_step L e d = d\<lparr>phase := Returned\<rparr>"
  | (all_throw) r where "e = Advance" and "phase d = AllRejected r"
      and "driver_step L e d = d\<lparr>phase := Threw r\<rparr>"
  | (settles) i p where "e = Settle i" and "phase d \<noteq> Running"
      and "map_of (executing d) i = Some p" and "driver_step L e d = settle i d"
proof (cases e)
  case Advance
  show ?thesis
  proof (cases "phase d")
    case Running
    show ?thesis
    proof (cases "generator d")
      case Nil
      with Advance Running show ?thesis by (intro exhausted) simp_all
    next
      case (Cons g rest)
      show ?thesis
      proof (cases g)
        case (Yields p)
        with Advance Running Cons show ?thesis by (intro pull[of p rest]) simp_all
      next
        case (Throws r)
        with Advance Running Cons show ?thesis by (intro throw[of r rest]) simp_all
      qed
    qed
  next
    case AwaitRace
    with Advance show ?thesis by (intro same) simp
  next
    case (RaceSettled w)
    show ?thesis
    proof (cases w)
      case (Fulfilled u)
      with Advance RaceSettled show ?thesis by (intro resume[of u]) simp_all
    next
      case (Rejected r)
      with Advance RaceSettled show ?thesis by (intro race_throw[of r]) simp_all
    qed
  next
    case AwaitAll
    show ?thesis
    proof (cases "executing d = []")
      case True
      with Advance AwaitAll show ?thesis by (intro return) simp_all
    next
      case False
      with Advance AwaitAll show ?thesis by (intro same) simp
    qed
  next
    case (AllRejected r)
    with Advance show ?thesis by (intro all_throw[of r]) simp_all
  next
    case Returned
    with Advance show ?thesis by (intro same) simp
  next
    case (Threw r)
    with Advance show ?thesis by (intro same) simp
  qed
next
  case (Settle i)
  show ?thesis
  proof (cases "phase d = Running")
    case True
    with Settle show ?thesis by (intro same) simp
  next
    case False
    show ?thesis
    proof (cases "map_of (executing d) i")
      case None
      with Settle False show ?thesis by (intro same) (simp add: settle_None)
    next
      case (Some p)
      with Settle False show ?thesis by (intro settles[of i p]) simp_all
    qed
  qed
qed

lemma wf_loop_body:
  assumes "driver_wf gen d" and "generator d = Yields p # rest"
  shows "driver_wf gen (loop_body L p d)"
proof -
  let ?n = "length (results d)"
  from assms have g: "drop ?n gen = Yields p # rest" by (simp add: driver_wf_def)
  then have lt: "?n < length gen" by (metis drop_all linorder_not_less list.distinct(1))
  from g have p: "gen ! ?n = Yields p" by (metis lt hd_drop_conv_nth list.sel(1))
  from g have "drop (Suc ?n) gen = rest" by (metis drop_Suc list.sel(3) tl_drop)
  moreover have "?n \<notin> fst ` set (executing d)" using assms(1) by (auto simp: driver_wf_def)
  ultimately show ?thesis
    using assms lt p
    by (auto simp: driver_wf_def loop_body_def Let_def less_Suc_eq drop_Suc tl_drop)
qed

lemma wf_settle: "driver_wf gen d \<Longrightarrow> driver_wf gen (settle i d)"
proof (cases "map_of (executing d) i")
  case None
  assume "driver_wf gen d"
  with None show ?thesis by (simp add: settle_None)
next
  case (Some p)
  assume "driver_wf gen d"
  then show ?thesis
    by (auto simp: settle_Some[OF Some] driver_wf_def Set_delete_filter distinct_map_filter)
qed

lemma wf_step: "driver_wf gen d \<Longrightarrow> driver_wf gen (driver_step L e d)"
proof -
  assume wf: "driver_wf gen d"
  then have phase_only: "driver_wf gen (d\<lparr>phase := ph\<rparr>)" for ph
    by (simp add: driver_wf_def)
  show ?thesis
  proof (cases L e d rule: driver_step_cases)
    case (pull p rest)
    with wf_loop_body[OF wf pull(3)] show ?thesis by simp
  next
    case (settles i p)
    with wf_settle[OF wf] show ?thesis by simp
  qed (simp_all add: wf phase_only)
qed

lemma recorded_loop_body:
  assumes "driver_recorded gen d"
  shows "driver_recorded gen (loop_body L p d)"
  using assms by (auto simp: driver_recorded_def loop_body_def Let_def nth_append less_Suc_eq)

lemma recorded_settle:
  assumes "driver_wf gen d" and "driver_recorded gen d"
  shows "driver_recorded gen (settle i d)"
proof (cases "map_of (executing d) i")
  case None
  with assms show ?thesis by (simp add: settle_None)
next
  case (Some p)
  then have mem: "(i, p) \<in> set (executing d)" by (rule map_of_SomeD)
  with assms(1) have i: "i < length (results d)" and p: "gen ! i = Yields p"
    by (auto simp: driver_wf_def)
  show ?thesis
    unfolding driver_recorded_def
  proof (intro allI impI)
    fix j
    assume j: "j < length (results (settle i d))"
      and out: "j \<notin> fst ` set (executing (settle i d))"
    show "\<exists>q. gen ! j = Yields q \<and> results (settle i d) ! j = settled_entry q"
    proof (cases "j = i")
      case True
      with i p show ?thesis by (simp add: settle_Some[OF Some])
    next
      case False
      with out have "j \<notin> fst ` set (executing d)"
        by (auto simp: settle_Some[OF Some] Set_delete_filter)
      with assms(2) j False show ?thesis
        by (simp add: settle_Some[OF Some] driver_recorded_def)
    qed
  qed
qed

lemma recorded_step:
  assumes "driver_wf gen d" and "driver_recorded gen d"
  shows "driver_recorded gen (driver_step L e d)"
proof -
  have phase_only: "driver_recorded gen (d\<lparr>phase := ph\<rparr>)" for ph
    using assms(2) by (simp add: driver_recorded_def)
  show ?thesis
  proof (cases L e d rule: driver_step_cases)
    case (pull p rest)
    with recorded_loop_body[OF assms(2)] show ?thesis by simp
  next
    case (settles i p)
    with recorded_settle[OF assms] show ?thesis by simp
  qed (simp_all add: assms(2) phase_only)
qed

lemma fine_step:
  assumes "phase_fine (phase d) (generator d)"
  shows "phase_fine (phase (driver_step L e d)) (generator (driver_step L e d))"
proof (cases L e d rule: driver_step_cases)
  case same
  with assms show ?thesis by simp
next
  case (pull p rest)
  then show ?thesis by (simp add: loop_body_def Let_def)
next
  case (settles i p)
  with assms show ?thesis by (cases "phase d") (simp_all add: settle_Some)
qed (use assms in simp_all)

lemma bounded_step: "driver_bounded L d \<Longrightarrow> driver_bounded L (driver_step L e d)"
proof -
  assume b: "driver_bounded L d"
  show ?thesis
  proof (cases L e d rule: driver_step_cases)
    case same
    with b show ?thesis by simp
  next
    case (pull p rest)
    with b have "executing d = [] \<or> \<not> size_ge (length (executing d)) L"
      by (simp add: driver_bounded_def)
    with pull show ?thesis by (auto simp: driver_bounded_def loop_body_def Let_def)
  next
    case (settles i p)
    let ?n = "length (executing d)" and ?m = "length (Set_delete i (executing d))"
    from Set_delete_shorter[OF settles(3)] have lt: "?m < ?n" .
    have first: "?m \<le> 1 \<or> \<not> size_ge (?m - 1) L"
    proof (cases "?n \<le> 1")
      case True
      with lt show ?thesis by simp
    next
      case False
      with b have "\<not> size_ge (?n - 1) L" by (simp add: driver_bounded_def)
      moreover from lt have "?m - 1 \<le> ?n - 1" by simp
      ultimately show ?thesis using size_ge_mono by blast
    qed
    from b have pre: "?n \<le> 1 \<or> \<not> size_ge (?n - 1) L" by (simp add: driver_bounded_def)
    have second: "Set_delete i (executing d) = [] \<or> \<not> size_ge ?m L"
    proof (cases "?n \<le> 1")
      case True
      with lt have "?m = 0" by arith
      then show ?thesis by simp
    next
      case False
      with pre have "\<not> size_ge (?n - 1) L" by simp
      moreover from lt have "?m \<le> ?n - 1" by simp
      ultimately show ?thesis using size_ge_mono by blast
    qed
    from first second settles show ?thesis
      by (cases "phase d") (simp_all add: settle_Some driver_bounded_def)
  qed (use b in \<open>auto simp: driver_bounded_def\<close>)
qed

lemma live_step: "driver_live d \<Longrightarrow> driver_live (driver_step L e d)"
proof -
  assume l: "driver_live d"
  show ?thesis
  proof (cases L e d rule: driver_step_cases)
    case same
    with l show ?thesis by simp
  next
    case (pull p rest)
    then show ?thesis by (auto simp: driver_live_def loop_body_def Let_def)
  next
    case (settles i p)
    with l show ?thesis by (cases "phase d") (auto simp: settle_Some driver_live_def)
  qed (use l in \<open>auto simp: driver_live_def\<close>)
qed

lemma inv_start: "driver_inv gen L (processConcurrently_start gen)"
  by (auto simp: driver_inv_def driver_wf_def driver_recorded_def driver_bounded_def
      driver_live_def processConcurrently_start_def)

lemma inv_step: "driver_inv gen L d \<Longrightarrow> driver_inv gen L (driver_step L e d)"
  by (simp add: driver_inv_def wf_step recorded_step fine_step bounded_step live_step)

lemma inv_drive: "driver_inv gen L d \<Longrightarrow> driver_inv gen L (drive L es d)"
  by (induction es arbitrary: d) (simp_all add: inv_step)

lemma inv_reachable: "driver_inv gen L (drive L es (processConcurrently_start gen))"
  by (rule inv_drive[OF inv_start])

lemma worker_index_in_range:
  "(i, p) \<in> set (executing (drive L es (processConcurrently_start gen)))
     \<Longrightarrow> i < length (results (drive L es (processConcurrently_start gen)))"
  using inv_reachable[of gen L es] by (auto simp: driver_inv_def driver_wf_def)

lemma drive_append: "drive L (es @ es') d = drive L es' (drive L es d)"
  by (induction es arbitrary: d) simp_all

lemma taken_are_promises:
  assumes "driver_inv gen L d" and "i < length (results d)"
  shows "\<exists>p. gen ! i = Yields p"
proof (cases "i \<in> fst ` set (executing d)")
  case True
  with assms(1) show ?thesis by (auto simp: driver_inv_def driver_wf_def)
next
  case False
  with assms show ?thesis by (auto simp: driver_inv_def driver_recorded_def)
qed

lemma returned_results:
  assumes "driver_inv gen L d" and "phase d = Returned"
  shows "length (results d) = length gen"
    and "\<forall>i < length gen. \<exists>p. gen ! i = Yields p \<and> results d ! i = settled_entry p"
proof -
  from assms have g: "drop (length (results d)) gen = []" and le: "length (results d) \<le> length gen"
    and ex: "executing d = []"
    by (auto simp: driver_inv_def driver_wf_def driver_live_def)
  from g le show len: "length (results d) = length gen" by simp
  from assms(1) ex len
  show "\<forall>i < length gen. \<exists>p. gen ! i = Yields p \<and> results d ! i = settled_entry p"
    by (simp add: driver_inv_def driver_recorded_def)
qed

lemma returned_results_promises:
  assumes "driver_inv (map Yields ops) L d" and "phase d = Returned"
  shows "results d = map settled_entry ops"
proof -
  from returned_results[OF assms]
  have "length (results d) = length ops"
    and "\<forall>i < length ops. results d ! i = settled_entry (ops ! i)" by auto
  then show ?thesis by (simp add: list_eq_iff_nth_eq)
qed

lemma phase_fine_Threw: "phase_fine (Threw r) g \<Longrightarrow> \<exists>rest. g = Throws r # rest"
  by (cases "(Threw r, g)" rule: phase_fine.cases) auto

lemma thrown_by_generator:
  assumes "driver_inv gen L d" and "phase d = Threw r"
  shows "length (results d) < length gen \<and> gen ! length (results d) = Throws r"
proof -
  from assms obtain rest where g: "drop (length (results d)) gen = Throws r # rest"
    using phase_fine_Threw[of r "generator d"] by (auto simp: driver_inv_def driver_wf_def)
  then have lt: "length (results d) < length gen"
    by (metis drop_all linorder_not_less list.distinct(1))
  with g show ?thesis by (metis hd_drop_conv_nth list.sel(1))
qed

lemma executing_le_results:
  assumes "driver_wf gen d"
  shows "length (executing d) \<le> length (results d)"
proof -
  from assms have d: "distinct (map fst (executing d))"
    and s: "set (map fst (executing d)) \<subseteq> {..<length (results d)}"
    by (auto simp: driver_wf_def)
  from d have "length (executing d) = card (set (map fst (executing d)))"
    by (metis distinct_card length_map)
  also from s have "\<dots> \<le> card {..<length (results d)}" by (intro card_mono) simp_all
  finally show ?thesis by simp
qed

lemma hd_executing:
  "executing d \<noteq> [] \<Longrightarrow> map_of (executing d) (fst (hd (executing d))) = Some (snd (hd (executing d)))"
  by (cases "executing d") auto

lemma measure_settle:
  assumes "map_of (executing d) i = Some p" and "phase d \<noteq> Running"
  shows "driver_measure (driver_step L (Settle i) d) < driver_measure d"
  using Set_delete_shorter[OF assms(1)] assms(2)
  by (cases "phase d") (simp_all add: settle_Some[OF assms(1)] driver_measure_def)

lemma measure_effective:
  assumes "driver_step L e d \<noteq> d"
  shows "driver_measure (driver_step L e d) < driver_measure d"
proof (cases L e d rule: driver_step_cases)
  case same
  with assms show ?thesis by simp
next
  case (pull p rest)
  then show ?thesis by (simp add: loop_body_def Let_def driver_measure_def)
next
  case (settles i p)
  with measure_settle[OF settles(3,2), of L] show ?thesis by simp
qed (simp_all add: driver_measure_def)

lemma some_event_enabled:
  assumes "driver_live d" and "phase_fine (phase d) (generator d)"
    and "phase d \<noteq> Returned" and "\<forall>r. phase d \<noteq> Threw r"
  shows "\<exists>e. driver_measure (driver_step L e d) < driver_measure d"
proof (cases "phase d")
  case Running
  then have "driver_measure (driver_step L Advance d) < driver_measure d"
    by (cases "generator d" rule: yields_next.cases)
      (simp_all add: loop_body_def Let_def driver_measure_def)
  then show ?thesis ..
next
  case AwaitRace
  with assms(1) have "executing d \<noteq> []" by (simp add: driver_live_def)
  from hd_executing[OF this] AwaitRace
  have "driver_measure (driver_step L (Settle (fst (hd (executing d)))) d) < driver_measure d"
    by (intro measure_settle) simp_all
  then show ?thesis ..
next
  case (RaceSettled w)
  with assms(2) have "driver_measure (driver_step L Advance d) < driver_measure d"
    by (cases w) (simp_all add: driver_measure_def)
  then show ?thesis ..
next
  case AwaitAll
  show ?thesis
  proof (cases "executing d = []")
    case True
    with AwaitAll have "driver_measure (driver_step L Advance d) < driver_measure d"
      by (simp add: driver_measure_def)
    then show ?thesis ..
  next
    case False
    from hd_executing[OF False] AwaitAll
    have "driver_measure (driver_step L (Settle (fst (hd (executing d)))) d) < driver_measure d"
      by (intro measure_settle) simp_all
    then show ?thesis ..
  qed
qed (use assms in simp_all)

lemma can_finish:
  "driver_inv gen L d
     \<Longrightarrow> \<exists>es. phase (drive L es d) = Returned \<or> (\<exists>r. phase (drive L es d) = Threw r)"
proof (induction d rule: measure_induct_rule[where f = driver_measure])
  case (less d)
  show ?case
  proof (cases "phase d = Returned \<or> (\<exists>r. phase d = Threw r)")
    case True
    then have "phase (drive L [] d) = Returned \<or> (\<exists>r. phase (drive L [] d) = Threw r)" by simp
    then show ?thesis ..
  next
    case False
    with less.prems obtain e where "driver_measure (driver_step L e d) < driver_measure d"
      using some_event_enabled[of d L] by (auto simp: driver_inv_def)
    from less.IH[OF this inv_step[OF less.prems]]
    obtain es where "phase (drive L es (driver_step L e d)) = Returned
        \<or> (\<exists>r. phase (drive L es (driver_step L e d)) = Threw r)" ..
    then have "phase (drive L (e # es) d) = Returned \<or> (\<exists>r. phase (drive L (e # es) d) = Threw r)"
      by simp
    then show ?thesis ..
  qed
qed

lemma can_return:
  "\<exists>es'. phase (drive L (es @ es') (processConcurrently_start (map Yields ops))) = Returned"
proof -
  let ?d = "drive L es (processConcurrently_start (map Yields ops))"
  have inv: "driver_inv (map Yields ops) L ?d" by (rule inv_reachable)
  from can_finish[OF inv] obtain es' where
    fin: "phase (drive L es' ?d) = Returned \<or> (\<exists>r. phase (drive L es' ?d) = Threw r)" ..
  have "phase (drive L es' ?d) \<noteq> Threw r" for r
  proof
    assume "phase (drive L es' ?d) = Threw r"
    from thrown_by_generator[OF inv_drive[OF inv] this] show False by auto
  qed
  with fin have "phase (drive L (es @ es') (processConcurrently_start (map Yields ops))) = Returned"
    by (simp add: drive_append)
  then show ?thesis ..
qed

lemma results_length_step:
  "length (results (driver_step L e d))
     = (if e = Advance \<and> phase d = Running \<and> yields_next (generator d)
        then Suc (length (results d)) else length (results d))"
proof (cases L e d rule: driver_step_cases)
  case (pull p rest)
  then show ?thesis by (simp add: loop_body_def Let_def)
next
  case (settles i p)
  then show ?thesis by (simp add: settle_Some)
next
  case same
  have "\<not> (e = Advance \<and> phase d = Running \<and> yields_next (generator d))"
  proof
    assume a: "e = Advance \<and> phase d = Running \<and> yields_next (generator d)"
    then obtain p rest where g: "generator d = Yields p # rest"
      by (cases "generator d" rule: yields_next.cases) auto
    with a have "length (generator (driver_step L e d)) = length rest"
      by (simp add: loop_body_def Let_def)
    with same g show False by simp
  qed
  with same show ?thesis by simp
qed simp_all

lemma results_length_drive: "length (results d) \<le> length (results (drive L es d))"
proof (induction es arbitrary: d)
  case Nil
  then show ?case by simp
next
  case (Cons e es)
  have "length (results d) \<le> length (results (driver_step L e d))"
    unfolding results_length_step by simp
  also have "\<dots> \<le> length (results (drive L es (driver_step L e d)))" by (rule Cons.IH)
  finally show ?case by simp
qed

lemma started_upt:
  "started L es d = [length (results d) ..< length (results (drive L es d))]"
proof (induction es arbitrary: d)
  case Nil
  then show ?case by simp
next
  case (Cons e es)
  show ?case
  proof (cases "e = Advance \<and> phase d = Running \<and> yields_next (generator d)")
    case True
    then have n: "length (results (driver_step L e d)) = Suc (length (results d))"
      unfolding results_length_step by simp
    with results_length_drive[of "driver_step L e d" L es]
    have "length (results d) < length (results (drive L es (driver_step L e d)))" by simp
    then show ?thesis using True n Cons.IH[of "driver_step L e d"]
      by (simp add: upt_conv_Cons)
  next
    case False
    then have "length (results (driver_step L e d)) = length (results d)"
      unfolding results_length_step by simp
    with False Cons.IH[of "driver_step L e d"] show ?thesis by auto
  qed
qed

lemma never_waits_step:
  assumes "\<forall>n. \<not> size_ge n L" and "phase d \<noteq> AwaitRace" and "\<forall>w. phase d \<noteq> RaceSettled w"
  shows "phase (driver_step L e d) \<noteq> AwaitRace \<and> (\<forall>w. phase (driver_step L e d) \<noteq> RaceSettled w)"
proof (cases L e d rule: driver_step_cases)
  case same
  with assms show ?thesis by simp
next
  case (pull p rest)
  with assms(1) show ?thesis by (simp add: loop_body_def Let_def)
next
  case (settles i p)
  with assms(2,3) show ?thesis by (cases "phase d") (simp_all add: settle_Some)
qed (use assms in simp_all)

lemma never_waits_drive:
  "\<forall>n. \<not> size_ge n L \<Longrightarrow> phase d \<noteq> AwaitRace \<Longrightarrow> \<forall>w. phase d \<noteq> RaceSettled w
     \<Longrightarrow> phase (drive L es d) \<noteq> AwaitRace \<and> (\<forall>w. phase (drive L es d) \<noteq> RaceSettled w)"
proof (induction es arbitrary: d)
  case Nil
  then show ?case by simp
next
  case (Cons e es)
  from never_waits_step[OF Cons.prems, of e] Cons.IH[of "driver_step L e d"] Cons.prems(1)
  show ?case by simp
qed

lemma throwing_generator:
  assumes "driver_inv gen L d" and "gen = map Yields ops @ Throws reason # rest"
  shows "phase d \<noteq> Returned" and "length (results d) \<le> length ops"
    and "phase d = Threw r \<Longrightarrow> r = reason"
proof -
  from assms(2) have at: "gen ! length ops = Throws reason" and lt: "length ops < length gen"
    by (simp_all add: nth_append)
  show le: "length (results d) \<le> length ops"
  proof (rule ccontr)
    assume "\<not> length (results d) \<le> length ops"
    then have "length ops < length (results d)" by simp
    from taken_are_promises[OF assms(1) this] at show False by simp
  qed
  show "phase d \<noteq> Returned"
  proof
    assume "phase d = Returned"
    from returned_results(1)[OF assms(1) this] le lt show False by simp
  qed
  show "r = reason" if "phase d = Threw r"
  proof -
    from thrown_by_generator[OF assms(1) that]
    have t: "gen ! length (results d) = Throws r" by simp
    have "length (results d) = length ops"
    proof (rule ccontr)
      assume "length (results d) \<noteq> length ops"
      with le have "length (results d) < length ops" by simp
      with assms(2) have "gen ! length (results d) = Yields (ops ! length (results d))"
        by (simp add: nth_append)
      with t show False by simp
    qed
    with t at show ?thesis by simp
  qed
qed

lemma finite_limit_bound:
  assumes "driver_bounded (Finite c) d"
  shows "int (length (executing d)) \<le> max \<lceil>c\<rceil> 1"
proof (cases "length (executing d) \<le> 1")
  case True
  then show ?thesis by simp
next
  case False
  with assms have "real (length (executing d) - 1) < c" by (simp add: driver_bounded_def)
  moreover from False have "real (length (executing d) - 1) = of_int (int (length (executing d)) - 1)"
    by simp
  ultimately have "int (length (executing d)) - 1 < \<lceil>c\<rceil>" by (simp add: less_ceiling_iff)
  then show ?thesis by simp
qed

lemmas driver_eval =
  processConcurrently_start_def loop_body_def settle_def worker_settles_def Let_def
  three_promises_def schedule_in_order_def schedule_out_of_order_def

lemma schedule_in_order_run:
  "drive (Finite 2) schedule_in_order (processConcurrently_start (map Yields three_promises)) =
     \<lparr>generator = [], results = [Fulfilled (Some 10), Rejected ''boom'', Fulfilled (Some 30)],
      executing = [], phase = Returned\<rparr>"
  by (simp add: driver_eval)

lemma schedule_out_of_order_run:
  "drive (Finite 2) schedule_out_of_order (processConcurrently_start (map Yields three_promises)) =
     \<lparr>generator = [], results = [Fulfilled (Some 10), Rejected ''boom'', Fulfilled (Some 30)],
      executing = [], phase = Returned\<rparr>"
  by (simp add: driver_eval)

lemma two_in_flight_run:
  "drive (Finite 2) [Advance, Advance] (processConcurrently_start (map Yields three_promises)) =
     \<lparr>generator = [Yields (Fulfilled 30)], results = [Fulfilled None, Fulfilled None],
      executing = [(0, Fulfilled 10), (1, Rejected ''boom'')], phase = AwaitRace\<rparr>"
  by (simp add: driver_eval)

lemma throwing_generator_example:
  "initiateFilesGenerator [''a'', ''b'', ''c''] throwing_initiateFn
     = map Yields [Fulfilled 10] @ Throws ''boom'' # [Yields (Fulfilled 10)]"
  by (simp add: initiateFilesGenerator_def throwing_initiateFn_def)

lemma throwing_generator_run:
  "drive (Finite 10) [Advance, Advance, Settle 0, Advance, Advance]
     (processConcurrently_start (initiateFilesGenerator [''a'', ''b'', ''c''] throwing_initiateFn)) =
     \<lparr>generator = [Throws ''boom'', Yields (Fulfilled 10)], results = [Fulfilled (Some 10)],
      executing = [], phase = Threw ''boom''\<rparr>"
  by (simp add: driver_eval initiateFilesGenerator_def throwing_initiateFn_def)

text \<open>
  Claim C3. Whatever the order in which the promises settle, when \<open>processConcurrently\<close>
  returns, \<^verbatim>\<open>results\<close> has one entry per promise of the generator and the entry at
  index \<open>i\<close> records how the \<open>i\<close>-th promise settled; for the generator of
  \<open>initiateFilesGenerator\<close> that is the promise of \<open>items ! i\<close>. The driver does
  return: from every state that a run on a generator of promises reaches, the run can go
  on to the return, and every event that changes the state lowers \<open>driver_measure\<close>,
  which starts at \<open>3 * N + 2\<close>, so no run has more events that change the state than
  that. On any generator, one that throws included, a run that returns has taken a promise
  for every item and recorded it at the item's index.
\<close>

theorem results_keep_input_order:
  "(phase (drive C es (processConcurrently_start (map Yields ops))) = Returned \<longrightarrow>
      results (drive C es (processConcurrently_start (map Yields ops))) = map settled_entry ops \<and>
      length (results (drive C es (processConcurrently_start (map Yields ops)))) = length ops \<and>
      (\<forall>i < length ops.
         results (drive C es (processConcurrently_start (map Yields ops))) ! i
           = settled_entry (ops ! i))) \<and>
   (\<exists>es'. phase (drive C (es @ es') (processConcurrently_start (map Yields ops))) = Returned) \<and>
   (driver_step C e (drive C es (processConcurrently_start gen))
      \<noteq> drive C es (processConcurrently_start gen) \<longrightarrow>
      driver_measure (driver_step C e (drive C es (processConcurrently_start gen)))
        < driver_measure (drive C es (processConcurrently_start gen))) \<and>
   driver_measure (processConcurrently_start gen) = 3 * length gen + 2 \<and>
   (phase (drive C es (processConcurrently_start
        (initiateFilesGenerator items (\<lambda>fileId. Yields (initiateFn fileId))))) = Returned \<longrightarrow>
      length (results (drive C es (processConcurrently_start
        (initiateFilesGenerator items (\<lambda>fileId. Yields (initiateFn fileId)))))) = length items \<and>
      (\<forall>i < length items.
         results (drive C es (processConcurrently_start
           (initiateFilesGenerator items (\<lambda>fileId. Yields (initiateFn fileId))))) ! i
           = settled_entry (initiateFn (items ! i)))) \<and>
   (phase (drive C es (processConcurrently_start gen)) = Returned \<longrightarrow>
      length (results (drive C es (processConcurrently_start gen))) = length gen \<and>
      (\<forall>i < length gen. \<exists>p. gen ! i = Yields p \<and>
         results (drive C es (processConcurrently_start gen)) ! i = settled_entry p))"
proof (intro conjI)
  show "phase (drive C es (processConcurrently_start (map Yields ops))) = Returned \<longrightarrow>
      results (drive C es (processConcurrently_start (map Yields ops))) = map settled_entry ops \<and>
      length (results (drive C es (processConcurrently_start (map Yields ops)))) = length ops \<and>
      (\<forall>i < length ops.
         results (drive C es (processConcurrently_start (map Yields ops))) ! i
           = settled_entry (ops ! i))"
    using returned_results_promises[OF inv_reachable[of "map Yields ops" C es]] by simp
  show "\<exists>es'. phase (drive C (es @ es') (processConcurrently_start (map Yields ops))) = Returned"
    by (rule can_return)
  show "driver_step C e (drive C es (processConcurrently_start gen))
      \<noteq> drive C es (processConcurrently_start gen) \<longrightarrow>
      driver_measure (driver_step C e (drive C es (processConcurrently_start gen)))
        < driver_measure (drive C es (processConcurrently_start gen))"
    using measure_effective[of C e "drive C es (processConcurrently_start gen)"] by blast
  show "driver_measure (processConcurrently_start gen) = 3 * length gen + 2"
    by (simp add: driver_measure_def processConcurrently_start_def)
  show "phase (drive C es (processConcurrently_start
        (initiateFilesGenerator items (\<lambda>fileId. Yields (initiateFn fileId))))) = Returned \<longrightarrow>
      length (results (drive C es (processConcurrently_start
        (initiateFilesGenerator items (\<lambda>fileId. Yields (initiateFn fileId)))))) = length items \<and>
      (\<forall>i < length items.
         results (drive C es (processConcurrently_start
           (initiateFilesGenerator items (\<lambda>fileId. Yields (initiateFn fileId))))) ! i
           = settled_entry (initiateFn (items ! i)))"
  proof -
    have g: "initiateFilesGenerator items (\<lambda>fileId. Yields (initiateFn fileId))
        = map Yields (map initiateFn items)"
      by (simp add: initiateFilesGenerator_def)
    show ?thesis
      unfolding g
      using returned_results_promises[OF inv_reachable[of "map Yields (map initiateFn items)" C es]]
      by simp
  qed
  show "phase (drive C es (processConcurrently_start gen)) = Returned \<longrightarrow>
      length (results (drive C es (processConcurrently_start gen))) = length gen \<and>
      (\<forall>i < length gen. \<exists>p. gen ! i = Yields p \<and>
         results (drive C es (processConcurrently_start gen)) ! i = settled_entry p)"
    using returned_results[OF inv_reachable[of gen C es]] by blast
qed

theorem results_keep_input_order_witness:
  "phase (drive (Finite 2) schedule_in_order
      (processConcurrently_start (map Yields three_promises))) = Returned \<and>
   phase (drive (Finite 2) schedule_out_of_order
      (processConcurrently_start (map Yields three_promises))) = Returned \<and>
   results (drive (Finite 2) schedule_in_order
      (processConcurrently_start (map Yields three_promises)))
     = [Fulfilled (Some 10), Rejected ''boom'', Fulfilled (Some 30)] \<and>
   results (drive (Finite 2) schedule_out_of_order
      (processConcurrently_start (map Yields three_promises)))
     = [Fulfilled (Some 10), Rejected ''boom'', Fulfilled (Some 30)]"
proof -
  have a: "phase (drive (Finite 2) schedule_in_order
      (processConcurrently_start (map Yields three_promises))) = Returned"
    by (simp add: schedule_in_order_run)
  have b: "phase (drive (Finite 2) schedule_out_of_order
      (processConcurrently_start (map Yields three_promises))) = Returned"
    by (simp add: schedule_out_of_order_run)
  have m: "map settled_entry three_promises
     = [Fulfilled (Some 10), Rejected ''boom'', Fulfilled (Some 30)]"
    by (simp add: three_promises_def)
  from a results_keep_input_order
    [where C = "Finite 2" and es = schedule_in_order and ops = three_promises]
  have c: "results (drive (Finite 2) schedule_in_order
      (processConcurrently_start (map Yields three_promises)))
     = map settled_entry three_promises" by blast
  from b results_keep_input_order
    [where C = "Finite 2" and es = schedule_out_of_order and ops = three_promises]
  have d: "results (drive (Finite 2) schedule_out_of_order
      (processConcurrently_start (map Yields three_promises)))
     = map settled_entry three_promises" by blast
  from a b c d m show ?thesis by simp
qed

text \<open>
  Claim C4, as the code has it. The loop adds the worker first and compares
  \<^verbatim>\<open>executing.size >= concurrency\<close> afterwards, and the limit is any JavaScript number.
  With an integer limit \<open>k\<close> of at least 1, in every state of every run at most \<open>k\<close>
  promises are in flight, and each step of the driver keeps that bound. With any finite
  limit \<open>c\<close> at most \<open>max \<lceil>c\<rceil> 1\<close> are in flight: a fractional limit counts as the next
  integer, and one promise is in flight even when the limit is 0 or less. With
  \<^verbatim>\<open>-Infinity\<close> at most one is in flight. With \<^verbatim>\<open>NaN\<close> or \<^verbatim>\<open>Infinity\<close> the comparison is
  never true, the driver never waits at the race, and the only bound is the number of
  items. A promise is in flight from the loop iteration that takes it from the generator
  until it settles: its worker is in \<^verbatim>\<open>executing\<close> at least so long.
\<close>

theorem in_flight_at_most_limit:
  "(1 \<le> k \<longrightarrow>
      int (length (executing (drive (Finite (of_int k)) es (processConcurrently_start gen)))) \<le> k) \<and>
   int (length (executing (drive (Finite c) es (processConcurrently_start gen)))) \<le> max \<lceil>c\<rceil> 1 \<and>
   length (executing (drive NegInfinity es (processConcurrently_start gen))) \<le> 1 \<and>
   length (executing (drive L es (processConcurrently_start gen))) \<le> length gen \<and>
   (L = NaN \<or> L = PosInfinity \<longrightarrow>
      phase (drive L es (processConcurrently_start gen)) \<noteq> AwaitRace) \<and>
   (1 \<le> k \<and> int (length (executing d)) \<le> k \<and>
    (phase d = Running \<longrightarrow> int (length (executing d)) < k)
      \<longrightarrow> int (length (executing (driver_step (Finite (of_int k)) e d))) \<le> k)"
proof (intro conjI impI)
  have bounded: "driver_bounded M (drive M es (processConcurrently_start gen))" for M
    using inv_reachable[of gen M es] by (simp add: driver_inv_def)
  show "int (length (executing (drive (Finite c) es (processConcurrently_start gen)))) \<le> max \<lceil>c\<rceil> 1"
    by (rule finite_limit_bound[OF bounded])
  show "int (length (executing (drive (Finite (of_int k)) es (processConcurrently_start gen)))) \<le> k"
    if "1 \<le> k"
    using finite_limit_bound[OF bounded, of "of_int k"] that by simp
  show "length (executing (drive NegInfinity es (processConcurrently_start gen))) \<le> 1"
    using bounded[of NegInfinity] by (simp add: driver_bounded_def)
  have "driver_wf gen (drive L es (processConcurrently_start gen))"
    using inv_reachable[of gen L es] by (simp add: driver_inv_def)
  then show "length (executing (drive L es (processConcurrently_start gen))) \<le> length gen"
    using executing_le_results[of gen "drive L es (processConcurrently_start gen)"]
    by (simp add: driver_wf_def)
  show "phase (drive L es (processConcurrently_start gen)) \<noteq> AwaitRace"
    if "L = NaN \<or> L = PosInfinity"
  proof -
    from that have "\<forall>n. \<not> size_ge n L" by auto
    from never_waits_drive[OF this, of "processConcurrently_start gen" es]
    show ?thesis by (simp add: processConcurrently_start_def)
  qed
  show "int (length (executing (driver_step (Finite (of_int k)) e d))) \<le> k"
    if h: "1 \<le> k \<and> int (length (executing d)) \<le> k \<and>
      (phase d = Running \<longrightarrow> int (length (executing d)) < k)"
  proof (cases "Finite (of_int k)" e d rule: driver_step_cases)
    case same
    with h show ?thesis by simp
  next
    case (pull p rest)
    with h show ?thesis by (simp add: loop_body_def Let_def)
  next
    case (settles i p)
    with Set_delete_shorter[OF settles(3)] h show ?thesis by (simp add: settle_Some)
  qed (use h in simp_all)
qed

theorem in_flight_at_most_limit_witness:
  "(1::int) \<le> 2 \<and>
   int (length (executing (drive (Finite 2) [Advance, Advance]
      (processConcurrently_start (map Yields three_promises))))) \<le> 2 \<and>
   length (executing (drive (Finite 2) [Advance, Advance]
      (processConcurrently_start (map Yields three_promises)))) = 2 \<and>
   phase (drive (Finite 2) [Advance, Advance]
      (processConcurrently_start (map Yields three_promises))) \<noteq> Running \<and>
   int (length (executing (driver_step (Finite 2) Advance
      (drive (Finite 2) [Advance, Advance]
         (processConcurrently_start (map Yields three_promises)))))) \<le> 2 \<and>
   phase (drive NaN [Advance, Advance, Advance]
      (processConcurrently_start (map Yields three_promises))) \<noteq> AwaitRace"
proof -
  let ?d = "drive (Finite 2) [Advance, Advance] (processConcurrently_start (map Yields three_promises))"
  have one: "(1::int) \<le> 2" by simp
  have two: "Finite (of_int 2) = Finite 2" by simp
  from one in_flight_at_most_limit
    [where k = 2 and es = "[Advance, Advance]" and gen = "map Yields three_promises"]
  have "int (length (executing (drive (Finite (of_int 2)) [Advance, Advance]
      (processConcurrently_start (map Yields three_promises))))) \<le> 2" by blast
  then have a: "int (length (executing ?d)) \<le> 2" unfolding two .
  have b: "length (executing ?d) = 2" and c: "phase ?d \<noteq> Running"
    unfolding two_in_flight_run by simp_all
  from one a c in_flight_at_most_limit[where k = 2 and d = ?d and e = Advance]
  have "int (length (executing (driver_step (Finite (of_int 2)) Advance ?d))) \<le> 2" by blast
  then have e: "int (length (executing (driver_step (Finite 2) Advance ?d))) \<le> 2"
    unfolding two .
  from in_flight_at_most_limit
    [where L = NaN and es = "[Advance, Advance, Advance]" and gen = "map Yields three_promises"]
  have f: "phase (drive NaN [Advance, Advance, Advance]
      (processConcurrently_start (map Yields three_promises))) \<noteq> AwaitRace" by blast
  from one a b c e f show ?thesis by blast
qed

text \<open>
  The claim bounds the number in flight by the limit for every limit. With the limit 0
  the first loop iteration puts a promise in flight; with the limit 1.5 the second
  iteration puts a second one in flight, since 1 is below 1.5; with \<^verbatim>\<open>NaN\<close> all three
  promises are in flight after three iterations.
\<close>

theorem in_flight_exceeds_limit:
  "\<not> real (length (executing (drive (Finite 0) [Advance]
        (processConcurrently_start [Yields (Fulfilled ())])))) \<le> 0 \<and>
   \<not> real (length (executing (drive (Finite (3 / 2)) [Advance, Advance]
        (processConcurrently_start (map Yields three_promises))))) \<le> 3 / 2 \<and>
   length (executing (drive NaN [Advance, Advance, Advance]
        (processConcurrently_start (map Yields three_promises)))) = 3"
  by (simp add: processConcurrently_start_def loop_body_def Let_def three_promises_def)

text \<open>
  Claim C7, as the code has it. A rejected promise makes its worker write a rejected entry
  at its index, and the worker itself is fulfilled: on any generator no promise the
  driver awaits is ever rejected, and the driver throws only what the generator throws.
  On a generator that yields a promise for every item the driver never throws; the
  promises are taken one by one, each once, in order; when the driver returns every
  promise has been taken and the entry of every rejected promise is the rejection; and
  whatever the promises do, from every state a run reaches the run can go on to the
  return. When the generator throws at an item (an operation that fails synchronously
  instead of returning a rejected promise), the driver ends with that exception: it
  never returns, none of the later items is taken, and every run can go on to the throw.
\<close>

theorem operation_failures_are_recorded:
  "phase (drive C es (processConcurrently_start (map Yields ops))) \<noteq> Threw reason \<and>
   phase (drive C es (processConcurrently_start gen)) \<noteq> AllRejected reason \<and>
   phase (drive C es (processConcurrently_start gen)) \<noteq> RaceSettled (Rejected reason) \<and>
   worker_settles i (Rejected reason) rs = (rs[i := Rejected reason], Fulfilled ()) \<and>
   snd (worker_settles i p rs) = Fulfilled () \<and>
   started C es (processConcurrently_start gen)
     = [0 ..< length (results (drive C es (processConcurrently_start gen)))] \<and>
   (phase (drive C es (processConcurrently_start (map Yields ops))) = Returned \<longrightarrow>
      generator (drive C es (processConcurrently_start (map Yields ops))) = [] \<and>
      started C es (processConcurrently_start (map Yields ops)) = [0 ..< length ops] \<and>
      length (results (drive C es (processConcurrently_start (map Yields ops)))) = length ops \<and>
      (\<forall>j < length ops. ops ! j = Rejected reason \<longrightarrow>
         results (drive C es (processConcurrently_start (map Yields ops))) ! j = Rejected reason)) \<and>
   (\<exists>es'. phase (drive C (es @ es') (processConcurrently_start (map Yields ops))) = Returned) \<and>
   (phase (drive C es (processConcurrently_start gen)) = Threw reason \<longrightarrow>
      Throws reason \<in> set gen) \<and>
   (gen = map Yields ops @ Throws reason # rest \<longrightarrow>
      phase (drive C es (processConcurrently_start gen)) \<noteq> Returned \<and>
      length (results (drive C es (processConcurrently_start gen))) \<le> length ops \<and>
      (\<forall>r. phase (drive C es (processConcurrently_start gen)) = Threw r \<longrightarrow> r = reason) \<and>
      (\<exists>es'. phase (drive C (es @ es') (processConcurrently_start gen)) = Threw reason))"
proof (intro conjI)
  let ?d = "drive C es (processConcurrently_start (map Yields ops))"
  let ?g = "drive C es (processConcurrently_start gen)"
  have inv: "driver_inv (map Yields ops) C ?d" by (rule inv_reachable)
  have ginv: "driver_inv gen C ?g" by (rule inv_reachable)
  show "phase ?d \<noteq> Threw reason"
  proof
    assume "phase ?d = Threw reason"
    from thrown_by_generator[OF inv this] show False by auto
  qed
  from ginv have fine: "phase_fine (phase ?g) (generator ?g)" by (simp add: driver_inv_def)
  from fine show "phase ?g \<noteq> AllRejected reason" by auto
  from fine show "phase ?g \<noteq> RaceSettled (Rejected reason)" by auto
  show "worker_settles i (Rejected reason) rs = (rs[i := Rejected reason], Fulfilled ())"
    by (simp add: worker_settles_eq)
  show "snd (worker_settles i p rs) = Fulfilled ()"
    by (simp add: worker_settles_eq)
  have st: "started C es (processConcurrently_start (map Yields ops))
      = [0 ..< length (results ?d)]"
    using started_upt[of C es "processConcurrently_start (map Yields ops)"]
    by (simp add: processConcurrently_start_def)
  show "started C es (processConcurrently_start gen) = [0 ..< length (results ?g)]"
    using started_upt[of C es "processConcurrently_start gen"]
    by (simp add: processConcurrently_start_def)
  show "phase ?d = Returned \<longrightarrow>
      generator ?d = [] \<and>
      started C es (processConcurrently_start (map Yields ops)) = [0 ..< length ops] \<and>
      length (results ?d) = length ops \<and>
      (\<forall>j < length ops. ops ! j = Rejected reason \<longrightarrow> results ?d ! j = Rejected reason)"
  proof
    assume r: "phase ?d = Returned"
    from returned_results_promises[OF inv r] have res: "results ?d = map settled_entry ops" .
    from inv r have "generator ?d = []" by (simp add: driver_inv_def driver_live_def)
    moreover from res have "length (results ?d) = length ops" by simp
    moreover from res have "\<forall>j < length ops. ops ! j = Rejected reason \<longrightarrow> results ?d ! j = Rejected reason"
      by simp
    ultimately show "generator ?d = [] \<and>
      started C es (processConcurrently_start (map Yields ops)) = [0 ..< length ops] \<and>
      length (results ?d) = length ops \<and>
      (\<forall>j < length ops. ops ! j = Rejected reason \<longrightarrow> results ?d ! j = Rejected reason)"
      using st by simp
  qed
  show "\<exists>es'. phase (drive C (es @ es') (processConcurrently_start (map Yields ops))) = Returned"
    by (rule can_return)
  show "phase ?g = Threw reason \<longrightarrow> Throws reason \<in> set gen"
  proof
    assume "phase ?g = Threw reason"
    from thrown_by_generator[OF ginv this] show "Throws reason \<in> set gen"
      by (metis nth_mem)
  qed
  show "gen = map Yields ops @ Throws reason # rest \<longrightarrow>
      phase ?g \<noteq> Returned \<and> length (results ?g) \<le> length ops \<and>
      (\<forall>r. phase ?g = Threw r \<longrightarrow> r = reason) \<and>
      (\<exists>es'. phase (drive C (es @ es') (processConcurrently_start gen)) = Threw reason)"
  proof
    assume g: "gen = map Yields ops @ Throws reason # rest"
    from can_finish[OF ginv] obtain es' where
      fin: "phase (drive C es' ?g) = Returned \<or> (\<exists>r. phase (drive C es' ?g) = Threw r)" ..
    have inv': "driver_inv gen C (drive C es' ?g)" by (rule inv_drive[OF ginv])
    from fin throwing_generator(1)[OF inv' g] obtain r where "phase (drive C es' ?g) = Threw r"
      by auto
    with throwing_generator(3)[OF inv' g] have "phase (drive C es' ?g) = Threw reason" by simp
    then have "phase (drive C (es @ es') (processConcurrently_start gen)) = Threw reason"
      by (simp add: drive_append)
    then have "\<exists>es'. phase (drive C (es @ es') (processConcurrently_start gen)) = Threw reason" ..
    with throwing_generator[OF ginv g]
    show "phase ?g \<noteq> Returned \<and> length (results ?g) \<le> length ops \<and>
      (\<forall>r. phase ?g = Threw r \<longrightarrow> r = reason) \<and>
      (\<exists>es'. phase (drive C (es @ es') (processConcurrently_start gen)) = Threw reason)"
      by blast
  qed
qed

theorem operation_failures_are_recorded_witness:
  "phase (drive (Finite 2) schedule_out_of_order
      (processConcurrently_start (map Yields three_promises))) = Returned \<and>
   three_promises ! 1 = Rejected ''boom'' \<and>
   results (drive (Finite 2) schedule_out_of_order
      (processConcurrently_start (map Yields three_promises))) ! 1 = Rejected ''boom'' \<and>
   started (Finite 2) schedule_out_of_order
      (processConcurrently_start (map Yields three_promises)) = [0, 1, 2] \<and>
   phase (drive (Finite 10) [Advance, Advance, Settle 0, Advance, Advance]
      (processConcurrently_start (initiateFilesGenerator [''a'', ''b'', ''c''] throwing_initiateFn)))
     = Threw ''boom'' \<and>
   Throws ''boom'' \<in> set (initiateFilesGenerator [''a'', ''b'', ''c''] throwing_initiateFn) \<and>
   length (results (drive (Finite 10) [Advance, Advance, Settle 0, Advance, Advance]
      (processConcurrently_start (initiateFilesGenerator [''a'', ''b'', ''c''] throwing_initiateFn))))
     \<le> 1"
proof -
  let ?d = "drive (Finite 2) schedule_out_of_order (processConcurrently_start (map Yields three_promises))"
  let ?gen = "initiateFilesGenerator [''a'', ''b'', ''c''] throwing_initiateFn"
  let ?t = "drive (Finite 10) [Advance, Advance, Settle 0, Advance, Advance]
      (processConcurrently_start ?gen)"
  have a: "phase ?d = Returned" by (simp add: schedule_out_of_order_run)
  have b: "three_promises ! 1 = Rejected ''boom''" and l: "(1::nat) < length three_promises"
    and u: "[0 ..< length three_promises] = [0, 1, 2]"
    by (simp_all add: three_promises_def upt_rec)
  have "phase ?d = Returned \<longrightarrow>
      generator ?d = [] \<and>
      started (Finite 2) schedule_out_of_order (processConcurrently_start (map Yields three_promises))
        = [0 ..< length three_promises] \<and>
      length (results ?d) = length three_promises \<and>
      (\<forall>j < length three_promises. three_promises ! j = Rejected ''boom'' \<longrightarrow>
         results ?d ! j = Rejected ''boom'')"
    by (rule operation_failures_are_recorded
      [where C = "Finite 2" and es = schedule_out_of_order and ops = three_promises
         and reason = "''boom''", THEN conjunct2, THEN conjunct2, THEN conjunct2, THEN conjunct2, THEN conjunct2, THEN conjunct2, THEN conjunct1])
  with a have c: "\<forall>j < length three_promises. three_promises ! j = Rejected ''boom'' \<longrightarrow>
         results ?d ! j = Rejected ''boom''"
    and s: "started (Finite 2) schedule_out_of_order
       (processConcurrently_start (map Yields three_promises)) = [0 ..< length three_promises]"
    by blast+
  from c b l have r: "results ?d ! 1 = Rejected ''boom''" by blast
  have t: "phase ?t = Threw ''boom''" unfolding throwing_generator_run by simp
  have g: "?gen = map Yields [Fulfilled 10] @ Throws ''boom'' # [Yields (Fulfilled 10)]"
    by (rule throwing_generator_example)
  note T = operation_failures_are_recorded
    [where C = "Finite 10" and es = "[Advance, Advance, Settle 0, Advance, Advance]"
       and ops = "[Fulfilled 10]" and reason = "''boom''" and gen = ?gen
       and rest = "[Yields (Fulfilled 10)]"]
  have "phase ?t = Threw ''boom'' \<longrightarrow> Throws ''boom'' \<in> set ?gen"
    by (rule T[THEN conjunct2, THEN conjunct2, THEN conjunct2, THEN conjunct2, THEN conjunct2, THEN conjunct2, THEN conjunct2, THEN conjunct2, THEN conjunct1])
  with t have m: "Throws ''boom'' \<in> set ?gen" by blast
  have "?gen = map Yields [Fulfilled 10] @ Throws ''boom'' # [Yields (Fulfilled 10)] \<longrightarrow>
      phase ?t \<noteq> Returned \<and> length (results ?t) \<le> length [Fulfilled 10 :: (int, string) settled] \<and>
      (\<forall>r. phase ?t = Threw r \<longrightarrow> r = ''boom'') \<and>
      (\<exists>es'. phase (drive (Finite 10) ([Advance, Advance, Settle 0, Advance, Advance] @ es')
          (processConcurrently_start ?gen)) = Threw ''boom'')"
    by (rule T[THEN conjunct2, THEN conjunct2, THEN conjunct2, THEN conjunct2, THEN conjunct2, THEN conjunct2, THEN conjunct2, THEN conjunct2, THEN conjunct2])
  with g have "length (results ?t) \<le> length [Fulfilled 10 :: (int, string) settled]" by blast
  then have n: "length (results ?t) \<le> 1" by simp
  from s u have s': "started (Finite 2) schedule_out_of_order
       (processConcurrently_start (map Yields three_promises)) = [0, 1, 2]" by simp
  from a b r s' t m n show ?thesis by blast
qed

text \<open>
  The claim is about every producer. One whose operation throws for the second of three
  items ends the driver with that exception: the third item is never taken, and the
  driver returns no results.
\<close>

theorem throwing_producer_ends_the_driver:
  "initiateFilesGenerator [''a'', ''b'', ''c''] throwing_initiateFn
     = [Yields (Fulfilled 10), Throws ''boom'', Yields (Fulfilled 10)] \<and>
   phase (drive (Finite 10) [Advance, Advance, Settle 0, Advance, Advance]
      (processConcurrently_start (initiateFilesGenerator [''a'', ''b'', ''c''] throwing_initiateFn)))
     = Threw ''boom'' \<and>
   started (Finite 10) [Advance, Advance, Settle 0, Advance, Advance]
      (processConcurrently_start (initiateFilesGenerator [''a'', ''b'', ''c''] throwing_initiateFn))
     = [0] \<and>
   generator (drive (Finite 10) [Advance, Advance, Settle 0, Advance, Advance]
      (processConcurrently_start (initiateFilesGenerator [''a'', ''b'', ''c''] throwing_initiateFn)))
     = [Throws ''boom'', Yields (Fulfilled 10)]"
  by (simp add: driver_eval initiateFilesGenerator_def throwing_initiateFn_def)

end
